theory Spec2Isabelle
  imports Main "HOL-Library.Multiset"
begin

section \<open>The patch as the engine holds it (Source/Pd/PdPatch.cpp)\<close>

text \<open>
  Engine objects are identified by their address. An address is a natural number and
  \<open>0\<close> is the null pointer. The fields of \<open>gobj\<close> after \<open>g_addr\<close> are what the
  engine answers when it is asked about the object at that address.
\<close>

type_synonym addr = nat

datatype error = NullDereference | DanglingPointer

record gobj =
  g_addr :: addr
  isInfoParent :: bool
  isGui :: bool
  nInlets :: nat
  nOutlets :: nat
  g_bounds :: "int \<times> int"

text \<open>One line of the engine, as \<open>t_linetraverser\<close> reports it.\<close>

record t_line =
  tr_ob :: addr
  tr_outno :: int
  tr_ob2 :: addr
  tr_inno :: int

record t_canvas =
  gl_list :: "gobj list"
  gl_lines :: "t_line list"

text \<open>\<open>Patch::ptr\<close> is the canvas pointer; \<open>None\<close> is the null pointer.\<close>

record Patch =
  ptr :: "t_canvas option"

text \<open>
  \<open>Patch::getIndex\<close>: the loop over \<open>gl_list\<close> with the counter \<open>i\<close>. The test for the
  info parent comes before the comparison with \<open>obj\<close>, as in the source.
\<close>

fun getIndex_loop :: "gobj list \<Rightarrow> addr \<Rightarrow> int \<Rightarrow> int" where
  "getIndex_loop [] obj i = - 1"
| "getIndex_loop (y # ys) obj i =
     (if isInfoParent y then getIndex_loop ys obj i
      else if obj = g_addr y then i
      else getIndex_loop ys obj (i + 1))"

text \<open>\<open>getIndex\<close> reads \<open>cnv->gl_list\<close> without a test of the pointer.\<close>

definition getIndex :: "Patch \<Rightarrow> addr \<Rightarrow> error + int" where
  "getIndex p obj =
     (case ptr p of
        None \<Rightarrow> Inl NullDereference
      | Some cnv \<Rightarrow> Inr (getIndex_loop (gl_list cnv) obj 0))"

text \<open>\<open>Patch::getObjects(onlyGui)\<close>; the objects are returned as the engine holds them.\<close>

fun getObjects_loop :: "bool \<Rightarrow> gobj list \<Rightarrow> gobj list" where
  "getObjects_loop onlyGui [] = []"
| "getObjects_loop onlyGui (y # ys) =
     (if isInfoParent y then getObjects_loop onlyGui ys
      else if onlyGui then
        (if isGui y then y # getObjects_loop onlyGui ys else getObjects_loop onlyGui ys)
      else y # getObjects_loop onlyGui ys)"

definition getObjects :: "Patch \<Rightarrow> bool \<Rightarrow> gobj list" where
  "getObjects p onlyGui =
     (case ptr p of None \<Rightarrow> [] | Some cnv \<Rightarrow> getObjects_loop onlyGui (gl_list cnv))"

text \<open>
  \<open>Patch::getConnections\<close>: each line becomes the tuple
  \<open>(tr_inno, tr_ob, tr_outno, tr_ob2)\<close>. The traverser starts from the canvas pointer,
  so a null pointer is a failure.
\<close>

type_synonym pd_connection = "int \<times> addr \<times> int \<times> addr"

definition getConnections :: "Patch \<Rightarrow> error + pd_connection list" where
  "getConnections p =
     (case ptr p of
        None \<Rightarrow> Inl NullDereference
      | Some cnv \<Rightarrow>
          Inr (map (\<lambda>t. (tr_inno t, tr_ob t, tr_outno t, tr_ob2 t)) (gl_lines cnv)))"

text \<open>
  Modelled from the spec: \<open>canvas_isconnected\<close> belongs to the engine and is not among
  the sources. It is the direct query "are these still connected": the engine holds a
  line from outlet \<open>outno\<close> of \<open>src\<close> to inlet \<open>inno\<close> of \<open>sink\<close>.
\<close>

definition canvas_isconnected :: "t_canvas \<Rightarrow> addr \<Rightarrow> int \<Rightarrow> addr \<Rightarrow> int \<Rightarrow> bool" where
  "canvas_isconnected cnv src outno sink inno =
     list_ex (\<lambda>t. tr_ob t = src \<and> tr_outno t = outno \<and> tr_ob2 t = sink \<and> tr_inno t = inno)
       (gl_lines cnv)"

section \<open>The canvas (Source/Canvas.cpp)\<close>

text \<open>
  A box is a heap object; \<open>box_id\<close> is its address, by which connections and the
  selection refer to it. \<open>pointer\<close> is \<open>getPointer()\<close> (\<open>0\<close> when null), \<open>gui\<close> says
  that the \<open>gui\<close> member is not null, \<open>edges_size\<close> is \<open>edges.size()\<close>.
\<close>

record Box =
  box_id :: nat
  pointer :: addr
  gui :: bool
  numInputs :: nat
  edges_size :: nat
  bounds :: "int \<times> int"

text \<open>An edge is named by the box that owns it and its position in that box's array.\<close>

type_synonym Edge = "nat \<times> nat"

record Connection =
  inlet :: "Edge option"
  outlet :: "Edge option"
  inbox :: nat
  outbox :: nat
  inIdx :: int
  outIdx :: int

record Canvas =
  isGraph :: bool
  presentationMode :: bool
  boxes :: "Box list"
  connections :: "Connection list"
  selectedComponents :: "nat list"

text \<open>
  \<open>OwnedArray::operator[]\<close>: an index outside the array gives the null pointer.
\<close>

definition OwnedArray_get :: "'a list \<Rightarrow> int \<Rightarrow> 'a option" where
  "OwnedArray_get xs i = (if 0 \<le> i \<and> i < int (length xs) then Some (xs ! nat i) else None)"

text \<open>Following a \<open>Box*\<close>: the box with that address, if it is still in the array.\<close>

definition deref_box :: "Box list \<Rightarrow> nat \<Rightarrow> Box option" where
  "deref_box bs a = find (\<lambda>b. box_id b = a) bs"

text \<open>The address \<open>new Box\<close> returns: one that no box of the array has.\<close>

definition fresh_id :: "Box list \<Rightarrow> nat" where
  "fresh_id bs = Suc (fold (\<lambda>b m. max (box_id b) m) bs 0)"

text \<open>
  Modelled from the spec: Box.cpp is not among the sources. A new box is the proxy of
  the engine object it is given; it has an embedded widget when the object is of GUI
  style, and its ports and bounds are those the engine reports.
\<close>

definition new_Box :: "nat \<Rightarrow> gobj \<Rightarrow> Box" where
  "new_Box a obj =
     \<lparr>box_id = a, pointer = g_addr obj, gui = isGui obj, numInputs = nInlets obj,
      edges_size = nInlets obj + nOutlets obj, bounds = g_bounds obj\<rparr>"

text \<open>
  Modelled from the spec: \<open>Box::updatePorts\<close> sets the port count to that of the engine
  object, \<open>Box::updateBounds\<close> takes the screen bounds from the engine.
\<close>

definition updatePorts :: "gobj \<Rightarrow> Box \<Rightarrow> Box" where
  "updatePorts obj b = b\<lparr>numInputs := nInlets obj, edges_size := nInlets obj + nOutlets obj\<rparr>"

definition updateBounds :: "gobj \<Rightarrow> Box \<Rightarrow> Box" where
  "updateBounds obj b = b\<lparr>bounds := g_bounds obj\<rparr>"

text \<open>\<open>box->edges[i]\<close>, an \<open>OwnedArray\<close> again.\<close>

definition edge_at :: "Box \<Rightarrow> int \<Rightarrow> Edge option" where
  "edge_at b i = (if 0 \<le> i \<and> i < int (edges_size b) then Some (box_id b, nat i) else None)"

text \<open>
  Modelled from the spec: Connection.cpp is not among the sources. A visual connection
  references one outlet edge and one inlet edge, each owned by a box; \<open>outbox\<close> and
  \<open>inbox\<close> are the owners, \<open>outIdx\<close> and \<open>inIdx\<close> the port numbers of the engine
  connection it stands for. The constructor reads both edges, so a null edge is a
  failure.
\<close>

definition new_Connection :: "Edge option \<Rightarrow> int \<Rightarrow> Edge option \<Rightarrow> int \<Rightarrow> error + Connection" where
  "new_Connection s outno e inno =
     (case (s, e) of
        (Some so, Some si) \<Rightarrow>
          Inr \<lparr>inlet = Some si, outlet = Some so, inbox = fst si, outbox = fst so,
               inIdx = inno, outIdx = outno\<rparr>
      | _ \<Rightarrow> Inl NullDereference)"

subsection \<open>synchronise\<close>

text \<open>The lambda \<open>isObjectDeprecated\<close>: no object of the engine has this address.\<close>

definition isObjectDeprecated :: "gobj list \<Rightarrow> addr \<Rightarrow> bool" where
  "isObjectDeprecated objects obj = list_all (\<lambda>obj2. obj \<noteq> g_addr obj2) objects"

text \<open>
  The test of the first loop for one connection. \<open>Inr True\<close>: the connection is removed.
  The null tests of \<open>inlet\<close> and \<open>outlet\<close> come first and stop the evaluation; then
  \<open>inbox\<close> and \<open>outbox\<close> are followed.
\<close>

definition connectionDeprecated :: "Patch \<Rightarrow> gobj list \<Rightarrow> Box list \<Rightarrow> Connection \<Rightarrow> error + bool" where
  "connectionDeprecated p objects bs c =
     (if inlet c = None \<or> outlet c = None then Inr True
      else case deref_box bs (inbox c) of
        None \<Rightarrow> Inl DanglingPointer
      | Some ib \<Rightarrow>
          if isObjectDeprecated objects (pointer ib) then Inr True
          else case deref_box bs (outbox c) of
            None \<Rightarrow> Inl DanglingPointer
          | Some ob \<Rightarrow>
              if isObjectDeprecated objects (pointer ob) then Inr True
              else case ptr p of
                None \<Rightarrow> Inl NullDereference
              | Some cnv \<Rightarrow>
                  Inr (\<not> canvas_isconnected cnv (pointer ob) (outIdx c) (pointer ib) (inIdx c)))"

text \<open>
  The first loop runs from the last connection to the first; the recursion treats the
  tail of the list before its head.
\<close>

fun removeDeprecatedConnections ::
  "Patch \<Rightarrow> gobj list \<Rightarrow> Box list \<Rightarrow> Connection list \<Rightarrow> error + Connection list" where
  "removeDeprecatedConnections p objects bs [] = Inr []"
| "removeDeprecatedConnections p objects bs (c # cs) =
     (case removeDeprecatedConnections p objects bs cs of
        Inl e \<Rightarrow> Inl e
      | Inr cs' \<Rightarrow>
          (case connectionDeprecated p objects bs c of
             Inl e \<Rightarrow> Inl e
           | Inr True \<Rightarrow> Inr cs'
           | Inr False \<Rightarrow> Inr (c # cs')))"

text \<open>The second loop: a box goes when it has a gui and its object is deprecated.\<close>

definition clearDeletedBoxes :: "gobj list \<Rightarrow> Box list \<Rightarrow> Box list" where
  "clearDeletedBoxes objects bs =
     filter (\<lambda>box. \<not> (gui box \<and> isObjectDeprecated objects (pointer box))) bs"

text \<open>
  \<open>std::find_if\<close> over the boxes for one object, then the update of the box found, in
  place. \<open>None\<close>: no box has the object.
\<close>

fun updateFound :: "bool \<Rightarrow> gobj \<Rightarrow> Box list \<Rightarrow> Box list option" where
  "updateFound updatePosition obj [] = None"
| "updateFound updatePosition obj (b # bs) =
     (if pointer b \<noteq> 0 \<and> pointer b = g_addr obj then
        Some ((if updatePosition then updateBounds obj (updatePorts obj b)
               else updatePorts obj b) # bs)
      else map_option (\<lambda>bs'. b # bs') (updateFound updatePosition obj bs))"

text \<open>The body of the third loop: the box of the object is updated, or a new one is added.\<close>

definition addOrUpdateBox :: "bool \<Rightarrow> gobj \<Rightarrow> Box list \<Rightarrow> Box list" where
  "addOrUpdateBox updatePosition obj bs =
     (case updateFound updatePosition obj bs of
        None \<Rightarrow> bs @ [new_Box (fresh_id bs) obj]
      | Some bs' \<Rightarrow> bs')"

text \<open>The third loop, over the objects in the order of the engine.\<close>

fun addOrUpdateBoxes :: "bool \<Rightarrow> gobj list \<Rightarrow> Box list \<Rightarrow> Box list" where
  "addOrUpdateBoxes updatePosition [] bs = bs"
| "addOrUpdateBoxes updatePosition (obj # objects) bs =
     addOrUpdateBoxes updatePosition objects (addOrUpdateBox updatePosition obj bs)"

text \<open>
  The key of the sort: \<open>std::find(objects.begin(), objects.end(), p) - objects.begin()\<close>,
  which is the number of objects when \<open>p\<close> is not among them.
\<close>

fun find_pos :: "gobj list \<Rightarrow> addr \<Rightarrow> nat" where
  "find_pos [] a = 0"
| "find_pos (obj # objects) a = (if g_addr obj = a then 0 else Suc (find_pos objects a))"

text \<open>
  \<open>std::sort\<close> gives some permutation that is ordered by the key and promises nothing
  on the order of boxes with equal keys. The sort is a parameter of the model, and
  \<open>std_sort\<close> is all that is known of it.
\<close>

type_synonym sorter = "(Box \<Rightarrow> nat) \<Rightarrow> Box list \<Rightarrow> Box list"

definition std_sort :: "sorter \<Rightarrow> bool" where
  "std_sort srt \<longleftrightarrow> (\<forall>k xs. mset (srt k xs) = mset xs \<and> sorted (map k (srt k xs)))"

text \<open>The test of the last loop that finds the visual connection of an engine tuple.\<close>

definition sameConnection :: "Box \<Rightarrow> Box \<Rightarrow> int \<Rightarrow> int \<Rightarrow> Connection \<Rightarrow> bool" where
  "sameConnection src sink inno outno c =
     (if inlet c = None \<or> outlet c = None then False
      else inIdx c = inno \<and> outIdx c = outno \<and> outbox c = box_id src \<and> inbox c = box_id sink)"

text \<open>
  The last loop, over the tuples of the engine. The references \<open>srcEdges\<close> and
  \<open>sinkEdges\<close> are bound to \<open>boxes[srcno]->edges\<close> and \<open>boxes[sinkno]->edges\<close> before
  the test of the ranges; with an index outside the boxes the array gives the null
  pointer, and going through it is undefined: the model stops there with
  \<open>NullDereference\<close>. A connection that is found keeps its place; only its stored path
  is refreshed, which the model leaves out.
\<close>

fun syncConnections ::
  "t_canvas \<Rightarrow> Box list \<Rightarrow> pd_connection list \<Rightarrow> Connection list \<Rightarrow> string list
     \<Rightarrow> error + (Connection list \<times> string list)" where
  "syncConnections cnv bs [] cons msgs = Inr (cons, msgs)"
| "syncConnections cnv bs ((inno, inobj, outno, outobj) # rest) cons msgs =
     (let srcno = getIndex_loop (gl_list cnv) inobj 0;
          sinkno = getIndex_loop (gl_list cnv) outobj 0
      in case OwnedArray_get bs srcno of
        None \<Rightarrow> Inl NullDereference
      | Some src \<Rightarrow>
          (case OwnedArray_get bs sinkno of
             None \<Rightarrow> Inl NullDereference
           | Some sink \<Rightarrow>
               if srcno \<ge> int (length bs) \<or> sinkno \<ge> int (length bs)
                  \<or> outno \<ge> int (edges_size src) \<or> inno \<ge> int (edges_size sink)
               then syncConnections cnv bs rest cons (msgs @ [''Error: impossible connection''])
               else (case find (sameConnection src sink inno outno) cons of
                  None \<Rightarrow>
                    (case new_Connection (edge_at src (int (numInputs src) + outno)) outno
                            (edge_at sink inno) inno of
                       Inl e \<Rightarrow> Inl e
                     | Inr c \<Rightarrow> syncConnections cnv bs rest (cons @ [c]) msgs)
                | Some c \<Rightarrow> syncConnections cnv bs rest cons msgs)))"

text \<open>\<open>Canvas::deselectAll\<close>: the selection is emptied.\<close>

definition deselectAll :: "Canvas \<Rightarrow> Canvas" where
  "deselectAll c = c\<lparr>selectedComponents := []\<rparr>"

text \<open>
  \<open>Canvas::synchronise(updatePosition)\<close>. The result is the canvas and the lines written
  with \<open>logError\<close>. The model has the boxes, the connections and the selection; it
  leaves out the z-order, the repainting, the transform and the deferred check of the
  bounds.
\<close>

definition synchronise :: "sorter \<Rightarrow> bool \<Rightarrow> Patch \<Rightarrow> Canvas \<Rightarrow> error + (Canvas \<times> string list)" where
  "synchronise srt updatePosition p c0 =
     (let c = deselectAll c0;
          objects = getObjects p False;
          editing = \<not> (isGraph c \<or> presentationMode c)
      in case (if editing then removeDeprecatedConnections p objects (boxes c) (connections c)
               else Inr (connections c)) of
        Inl e \<Rightarrow> Inl e
      | Inr cons1 \<Rightarrow>
          (let bs1 = clearDeletedBoxes objects (boxes c);
               bs2 = addOrUpdateBoxes updatePosition objects bs1;
               bs3 = srt (\<lambda>b. find_pos objects (pointer b)) bs2
           in case getConnections p of
             Inl e \<Rightarrow> Inl e
           | Inr pdConnections \<Rightarrow>
               if editing then
                 (case ptr p of
                    None \<Rightarrow> Inl NullDereference
                  | Some cnv \<Rightarrow>
                      (case syncConnections cnv bs3 pdConnections cons1 [] of
                         Inl e \<Rightarrow> Inl e
                       | Inr (cons2, msgs) \<Rightarrow>
                           Inr (c\<lparr>boxes := bs3, connections := cons2\<rparr>, msgs)))
               else Inr (c\<lparr>boxes := bs3, connections := cons1\<rparr>, [])))"

text \<open>A run of calls of \<open>synchronise\<close>, the engine being in some state at each call.\<close>

fun synchronise_seq :: "sorter \<Rightarrow> (bool \<times> Patch) list \<Rightarrow> Canvas \<Rightarrow> error + Canvas" where
  "synchronise_seq srt [] c = Inr c"
| "synchronise_seq srt ((updatePosition, p) # calls) c =
     (case synchronise srt updatePosition p c of
        Inl e \<Rightarrow> Inl e
      | Inr (c', msgs) \<Rightarrow> synchronise_seq srt calls c')"

subsection \<open>createConnection (Source/Pd/PdPatch.cpp)\<close>

text \<open>
  \<open>libpd_canconnect\<close> is the engine's own decision and a parameter of the model.
\<close>

type_synonym canconnect = "t_canvas \<Rightarrow> addr \<Rightarrow> int \<Rightarrow> addr \<Rightarrow> int \<Rightarrow> bool"

text \<open>
  Modelled from the spec: \<open>libpd_createconnection\<close> belongs to the engine and is not
  among the sources. It makes the connection: the engine holds one more line.
\<close>

definition libpd_createconnection :: "t_canvas \<Rightarrow> addr \<Rightarrow> int \<Rightarrow> addr \<Rightarrow> int \<Rightarrow> t_canvas" where
  "libpd_createconnection cnv src nout sink nin =
     cnv\<lparr>gl_lines := gl_lines cnv @ [\<lparr>tr_ob = src, tr_outno = nout, tr_ob2 = sink, tr_inno = nin\<rparr>]\<rparr>"

text \<open>
  \<open>Patch::createConnection\<close>. The closure given to \<open>enqueueFunction\<close> has run when
  \<open>waitForStateUpdate\<close> returns; the model runs it in place, on the patch as the
  mutations queued before have left it. The result is the boolean and the patch.
\<close>

definition createConnection ::
  "canconnect \<Rightarrow> addr \<Rightarrow> int \<Rightarrow> addr \<Rightarrow> int \<Rightarrow> Patch \<Rightarrow> bool \<times> Patch" where
  "createConnection libpd_canconnect src nout sink nin p =
     (if src = 0 \<or> sink = 0 then (False, p)
      else case ptr p of
        None \<Rightarrow> (False, p)
      | Some cnv \<Rightarrow>
          (let canConnect = libpd_canconnect cnv src nout sink nin
           in if \<not> canConnect then (canConnect, p)
              else (canConnect, p\<lparr>ptr := Some (libpd_createconnection cnv src nout sink nin)\<rparr>)))"

subsection \<open>keyPressed\<close>

text \<open>The key codes that \<open>Canvas::keyPressed\<close> names, and any other code.\<close>

datatype KeyCode =
  leftKey | rightKey | upKey | downKey
  | backspaceKey | pageUpKey | pageDownKey | homeKey | escapeKey | deleteKey | returnKey | tabKey
  | otherKey int

text \<open>The calls that the key handler makes on the patch.\<close>

datatype patch_call = moveObjects "addr list" int int | keyPress KeyCode bool

text \<open>
  \<open>getSelectionOfType<Box>\<close>: the selected components that are boxes of the canvas, in
  the order of the selection.
\<close>

definition getSelectionOfTypeBox :: "Canvas \<Rightarrow> Box list" where
  "getSelectionOfTypeBox c = List.map_filter (deref_box (boxes c)) (selectedComponents c)"

text \<open>The lambda \<open>moveSelection\<close>: one call of \<open>moveObjects\<close> with the selected objects.\<close>

definition moveSelection :: "Canvas \<Rightarrow> int \<Rightarrow> int \<Rightarrow> patch_call list" where
  "moveSelection c x y = [moveObjects (map pointer (getSelectionOfTypeBox c)) x y]"

text \<open>
  \<open>Canvas::keyPressed\<close>. \<open>isCurrent\<close> says that the canvas is the current canvas of the
  editor. The result is the boolean returned and the calls made on the patch.
\<close>

definition keyPressed :: "bool \<Rightarrow> Canvas \<Rightarrow> KeyCode \<Rightarrow> bool \<Rightarrow> bool \<times> patch_call list" where
  "keyPressed isCurrent c keycode shift =
     (if \<not> isCurrent \<or> isGraph c then (False, [])
      else if keycode = leftKey then (True, moveSelection c (- 10) 0)
      else if keycode = rightKey then (True, moveSelection c 10 0)
      else if keycode = upKey then (True, moveSelection c 0 (- 10))
      else if keycode = downKey then (True, moveSelection c 0 10)
      else if keycode = backspaceKey \<or> keycode = pageUpKey \<or> keycode = pageDownKey
           \<or> keycode = homeKey \<or> keycode = escapeKey \<or> keycode = deleteKey
           \<or> keycode = returnKey \<or> keycode = tabKey
      then (False, [])
      else (False, [keyPress keycode shift]))"

subsection \<open>Properties of a state\<close>

text \<open>The addresses of the engine's list are those of a linked list: not null, no two alike.\<close>

definition wf_canvas :: "t_canvas \<Rightarrow> bool" where
  "wf_canvas cnv \<longleftrightarrow> distinct (map g_addr (gl_list cnv)) \<and> list_all (\<lambda>y. g_addr y \<noteq> 0) (gl_list cnv)"

definition wf_patch :: "Patch \<Rightarrow> bool" where
  "wf_patch p \<longleftrightarrow> (case ptr p of None \<Rightarrow> True | Some cnv \<Rightarrow> wf_canvas cnv)"

text \<open>No two boxes at one address.\<close>

definition wf_heap :: "Box list \<Rightarrow> bool" where
  "wf_heap bs \<longleftrightarrow> distinct (map box_id bs)"

text \<open>At most one box for an engine object.\<close>

definition unique_boxes :: "Box list \<Rightarrow> bool" where
  "unique_boxes bs \<longleftrightarrow> distinct (filter (\<lambda>a. a \<noteq> 0) (map pointer bs))"

text \<open>The ports of a box are those of the object, and its bounds if they are updated.\<close>

definition boxSynced :: "bool \<Rightarrow> gobj \<Rightarrow> Box \<Rightarrow> bool" where
  "boxSynced updatePosition obj b \<longleftrightarrow>
     numInputs b = nInlets obj \<and> edges_size b = nInlets obj + nOutlets obj
     \<and> (if updatePosition then bounds b = g_bounds obj else True)"

text \<open>
  A connection of which a box is missing, or is the box of an object that the engine
  no longer lists.
\<close>

definition endpointDeprecated :: "gobj list \<Rightarrow> Box list \<Rightarrow> Connection \<Rightarrow> bool" where
  "endpointDeprecated objects bs c =
     ((case deref_box bs (inbox c) of
         None \<Rightarrow> True | Some ib \<Rightarrow> isObjectDeprecated objects (pointer ib))
      \<or> (case deref_box bs (outbox c) of
         None \<Rightarrow> True | Some ob \<Rightarrow> isObjectDeprecated objects (pointer ob)))"

text \<open>
  An engine tuple is handled on the boxes \<open>bs\<close> by the connections \<open>X\<close>: both boxes are
  found, and either the ranges are refused or \<open>X\<close> has the connection of the tuple.
\<close>

definition tupleHandled :: "t_canvas \<Rightarrow> Box list \<Rightarrow> Connection list \<Rightarrow> pd_connection \<Rightarrow> bool" where
  "tupleHandled cnv bs X t =
     (case t of (inno, inobj, outno, outobj) \<Rightarrow>
        (let srcno = getIndex_loop (gl_list cnv) inobj 0;
             sinkno = getIndex_loop (gl_list cnv) outobj 0
         in case (OwnedArray_get bs srcno, OwnedArray_get bs sinkno) of
           (Some src, Some sink) \<Rightarrow>
             (srcno \<ge> int (length bs) \<or> sinkno \<ge> int (length bs)
              \<or> outno \<ge> int (edges_size src) \<or> inno \<ge> int (edges_size sink))
             \<or> list_ex (sameConnection src sink inno outno) X
         | _ \<Rightarrow> False))"

subsection \<open>States for the examples\<close>

definition ex_cnv :: t_canvas where
  "ex_cnv =
     \<lparr>gl_list =
        [\<lparr>g_addr = 1, isInfoParent = True, isGui = False, nInlets = 0, nOutlets = 0, g_bounds = (0, 0)\<rparr>,
         \<lparr>g_addr = 2, isInfoParent = False, isGui = True, nInlets = 1, nOutlets = 1, g_bounds = (10, 10)\<rparr>,
         \<lparr>g_addr = 3, isInfoParent = False, isGui = False, nInlets = 1, nOutlets = 0, g_bounds = (10, 50)\<rparr>],
      gl_lines = [\<lparr>tr_ob = 2, tr_outno = 0, tr_ob2 = 3, tr_inno = 0\<rparr>]\<rparr>"

definition ex_patch :: Patch where
  "ex_patch = \<lparr>ptr = Some ex_cnv\<rparr>"

text \<open>
  A canvas with a box without gui whose object is gone (address 9), a box with gui
  whose object is gone (address 8), the box of object 3 with stale ports, a connection
  between the last two, and the last box selected.
\<close>

definition ex_canvas :: Canvas where
  "ex_canvas =
     \<lparr>isGraph = False, presentationMode = False,
      boxes =
        [\<lparr>box_id = 1, pointer = 9, gui = False, numInputs = 0, edges_size = 0, bounds = (0, 0)\<rparr>,
         \<lparr>box_id = 2, pointer = 8, gui = True, numInputs = 0, edges_size = 1, bounds = (5, 5)\<rparr>,
         \<lparr>box_id = 3, pointer = 3, gui = False, numInputs = 2, edges_size = 2, bounds = (10, 40)\<rparr>],
      connections =
        [\<lparr>inlet = Some (3, 0), outlet = Some (2, 0), inbox = 3, outbox = 2, inIdx = 0, outIdx = 0\<rparr>],
      selectedComponents = [3]\<rparr>"

text \<open>
  The engine after a change: object 2 is gone, object 5 is new and connected to object 3.
\<close>

definition ex_patch2 :: Patch where
  "ex_patch2 =
     \<lparr>ptr = Some
        \<lparr>gl_list =
           [\<lparr>g_addr = 3, isInfoParent = False, isGui = False, nInlets = 1, nOutlets = 0, g_bounds = (20, 50)\<rparr>,
            \<lparr>g_addr = 5, isInfoParent = False, isGui = True, nInlets = 0, nOutlets = 1, g_bounds = (20, 10)\<rparr>],
         gl_lines = [\<lparr>tr_ob = 5, tr_outno = 0, tr_ob2 = 3, tr_inno = 0\<rparr>]\<rparr>\<rparr>"

text \<open>
  What \<open>synchronise(true)\<close> on \<open>ex_patch\<close> and then \<open>synchronise(false)\<close> on \<open>ex_patch2\<close>
  make of \<open>ex_canvas\<close>.
\<close>

definition ex_synced2 :: Canvas where
  "ex_synced2 =
     \<lparr>isGraph = False, presentationMode = False,
      boxes =
        [\<lparr>box_id = 3, pointer = 3, gui = False, numInputs = 1, edges_size = 1, bounds = (10, 50)\<rparr>,
         \<lparr>box_id = 4, pointer = 5, gui = True, numInputs = 0, edges_size = 1, bounds = (20, 10)\<rparr>,
         \<lparr>box_id = 1, pointer = 9, gui = False, numInputs = 0, edges_size = 0, bounds = (0, 0)\<rparr>],
      connections =
        [\<lparr>inlet = Some (3, 0), outlet = Some (4, 0), inbox = 3, outbox = 4, inIdx = 0, outIdx = 0\<rparr>],
      selectedComponents = []\<rparr>"

text \<open>
  A sort that keeps what \<open>std::sort\<close> promises and turns boxes with equal keys round.
\<close>

definition sort_reversed :: sorter where
  "sort_reversed k xs = sort_key k (rev xs)"

text \<open>A canvas with two boxes without gui, both of objects that \<open>ex_patch\<close> does not list.\<close>

definition stale_canvas :: Canvas where
  "stale_canvas =
     \<lparr>isGraph = False, presentationMode = False,
      boxes =
        [\<lparr>box_id = 1, pointer = 8, gui = False, numInputs = 0, edges_size = 0, bounds = (0, 0)\<rparr>,
         \<lparr>box_id = 2, pointer = 9, gui = False, numInputs = 0, edges_size = 0, bounds = (0, 0)\<rparr>],
      connections = [], selectedComponents = []\<rparr>"

text \<open>What \<open>synchronise\<close> with \<open>sort_reversed\<close> makes of \<open>stale_canvas\<close> on \<open>ex_patch\<close>.\<close>

definition stale_synced :: Canvas where
  "stale_synced =
     \<lparr>isGraph = False, presentationMode = False,
      boxes =
        [\<lparr>box_id = 3, pointer = 2, gui = True, numInputs = 1, edges_size = 2, bounds = (10, 10)\<rparr>,
         \<lparr>box_id = 4, pointer = 3, gui = False, numInputs = 1, edges_size = 1, bounds = (10, 50)\<rparr>,
         \<lparr>box_id = 2, pointer = 9, gui = False, numInputs = 0, edges_size = 0, bounds = (0, 0)\<rparr>,
         \<lparr>box_id = 1, pointer = 8, gui = False, numInputs = 0, edges_size = 0, bounds = (0, 0)\<rparr>],
      connections =
        [\<lparr>inlet = Some (4, 0), outlet = Some (3, 1), inbox = 4, outbox = 3, inIdx = 0, outIdx = 0\<rparr>],
      selectedComponents = []\<rparr>"

text \<open>The canvas as its constructor leaves it before the first \<open>synchronise\<close>.\<close>

definition empty_canvas :: Canvas where
  "empty_canvas =
     \<lparr>isGraph = False, presentationMode = False, boxes = [], connections = [],
      selectedComponents = []\<rparr>"

text \<open>A patch in which the info parent is the source of a line.\<close>

definition info_cnv :: t_canvas where
  "info_cnv =
     \<lparr>gl_list =
        [\<lparr>g_addr = 1, isInfoParent = True, isGui = False, nInlets = 0, nOutlets = 1, g_bounds = (0, 0)\<rparr>,
         \<lparr>g_addr = 2, isInfoParent = False, isGui = False, nInlets = 1, nOutlets = 0, g_bounds = (10, 10)\<rparr>],
      gl_lines = [\<lparr>tr_ob = 1, tr_outno = 0, tr_ob2 = 2, tr_inno = 0\<rparr>]\<rparr>"

definition info_patch :: Patch where
  "info_patch = \<lparr>ptr = Some info_cnv\<rparr>"

text \<open>What \<open>synchronise\<close> makes of \<open>ex_canvas\<close> on \<open>ex_patch\<close>.\<close>

definition ex_synced :: Canvas where
  "ex_synced =
     \<lparr>isGraph = False, presentationMode = False,
      boxes =
        [\<lparr>box_id = 4, pointer = 2, gui = True, numInputs = 1, edges_size = 2, bounds = (10, 10)\<rparr>,
         \<lparr>box_id = 3, pointer = 3, gui = False, numInputs = 1, edges_size = 1, bounds = (10, 50)\<rparr>,
         \<lparr>box_id = 1, pointer = 9, gui = False, numInputs = 0, edges_size = 0, bounds = (0, 0)\<rparr>],
      connections =
        [\<lparr>inlet = Some (3, 0), outlet = Some (4, 1), inbox = 3, outbox = 4, inIdx = 0, outIdx = 0\<rparr>],
      selectedComponents = []\<rparr>"

section \<open>Lemmas on the loops of synchronise\<close>

lemma getIndex_loop_absent:
  "obj \<notin> g_addr ` set (getObjects_loop False ys) \<Longrightarrow> getIndex_loop ys obj i = - 1"
  by (induction ys arbitrary: i) auto

lemma getIndex_loop_present:
  "obj \<in> g_addr ` set (getObjects_loop False ys) \<Longrightarrow>
   \<exists>k. getIndex_loop ys obj i = i + int k \<and> k < length (getObjects_loop False ys)
        \<and> g_addr (getObjects_loop False ys ! k) = obj
        \<and> (\<forall>j<k. g_addr (getObjects_loop False ys ! j) \<noteq> obj)"
proof (induction ys arbitrary: i)
  case Nil
  then show ?case by simp
next
  case (Cons y ys)
  show ?case
  proof (cases "isInfoParent y")
    case True
    with Cons show ?thesis by simp
  next
    case False
    show ?thesis
    proof (cases "obj = g_addr y")
      case True
      with False show ?thesis by (intro exI [of _ 0]) simp
    next
      case neq: False
      with False Cons.prems have "obj \<in> g_addr ` set (getObjects_loop False ys)" by auto
      from Cons.IH [OF this, of "i + 1"] obtain k where k:
        "getIndex_loop ys obj (i + 1) = i + 1 + int k"
        "k < length (getObjects_loop False ys)"
        "g_addr (getObjects_loop False ys ! k) = obj"
        "\<forall>j<k. g_addr (getObjects_loop False ys ! j) \<noteq> obj"
        by blast
      have "\<forall>j<Suc k. g_addr ((y # getObjects_loop False ys) ! j) \<noteq> obj"
        using k(4) neq by (auto simp: nth_Cons split: nat.splits)
      with k False neq show ?thesis
        by (intro exI [of _ "Suc k"]) simp
    qed
  qed
qed

lemma synchronise_selection:
  "synchronise srt updatePosition p c = Inr (c', msgs) \<Longrightarrow> selectedComponents c' = []"
  by (auto simp: synchronise_def deselectAll_def Let_def split: sum.splits option.splits if_splits)

lemma synchronise_ex: "synchronise sort_key True ex_patch ex_canvas = Inr (ex_synced, [])"
  by code_simp

lemma std_sort_sort_key: "std_sort sort_key"
  by (simp add: std_sort_def)

lemma std_sort_mset: "std_sort srt \<Longrightarrow> mset (srt k xs) = mset xs"
  by (simp add: std_sort_def)

lemma std_sort_set: "std_sort srt \<Longrightarrow> set (srt k xs) = set xs"
  by (metis std_sort_mset mset_eq_setD)

lemma std_sort_length: "std_sort srt \<Longrightarrow> length (srt k xs) = length xs"
  by (metis std_sort_mset mset_eq_length)

lemma std_sort_sorted: "std_sort srt \<Longrightarrow> sorted (map k (srt k xs))"
  by (simp add: std_sort_def)

lemma isObjectDeprecated_iff: "isObjectDeprecated objects a \<longleftrightarrow> a \<notin> g_addr ` set objects"
  by (auto simp: isObjectDeprecated_def list_all_iff)

lemma updateFound_None:
  "updateFound up obj bs = None \<longleftrightarrow> (\<forall>b\<in>set bs. \<not> (pointer b \<noteq> 0 \<and> pointer b = g_addr obj))"
  by (induction bs) auto

lemma updateFound_Some_maps:
  "updateFound up obj bs = Some bs' \<Longrightarrow>
   map pointer bs' = map pointer bs \<and> map box_id bs' = map box_id bs \<and> map gui bs' = map gui bs"
  by (induction bs arbitrary: bs')
     (auto simp: updatePorts_def updateBounds_def split: if_splits)

lemma updateFound_Some_keeps:
  "updateFound up obj bs = Some bs' \<Longrightarrow> b \<in> set bs \<Longrightarrow>
   \<exists>b'\<in>set bs'. box_id b' = box_id b \<and> pointer b' = pointer b \<and> gui b' = gui b
      \<and> (pointer b \<noteq> g_addr obj \<longrightarrow> b' = b)"
  by (induction bs arbitrary: bs')
     (auto simp: updatePorts_def updateBounds_def split: if_splits)

lemma addOrUpdateBox_keeps:
  "b \<in> set bs \<Longrightarrow>
   \<exists>b'\<in>set (addOrUpdateBox up obj bs). box_id b' = box_id b \<and> pointer b' = pointer b
      \<and> gui b' = gui b \<and> (pointer b \<noteq> g_addr obj \<longrightarrow> b' = b)"
  by (cases "updateFound up obj bs") (auto simp: addOrUpdateBox_def dest: updateFound_Some_keeps)

lemma addOrUpdateBoxes_keeps:
  "b \<in> set bs \<Longrightarrow>
   \<exists>b'\<in>set (addOrUpdateBoxes up objects bs). box_id b' = box_id b \<and> pointer b' = pointer b
      \<and> gui b' = gui b \<and> (pointer b \<notin> g_addr ` set objects \<longrightarrow> b' = b)"
proof (induction objects arbitrary: bs b)
  case Nil
  then show ?case by simp
next
  case (Cons obj objects)
  from addOrUpdateBox_keeps [OF Cons.prems, of up obj] obtain b1 where b1:
    "b1 \<in> set (addOrUpdateBox up obj bs)" "box_id b1 = box_id b" "pointer b1 = pointer b"
    "gui b1 = gui b" "pointer b \<noteq> g_addr obj \<longrightarrow> b1 = b"
    by blast
  from Cons.IH [OF b1(1)] obtain b' where b':
    "b' \<in> set (addOrUpdateBoxes up objects (addOrUpdateBox up obj bs))"
    "box_id b' = box_id b1" "pointer b' = pointer b1" "gui b' = gui b1"
    "pointer b1 \<notin> g_addr ` set objects \<longrightarrow> b' = b1"
    by blast
  show ?case
    using b1 b' by (intro bexI [of _ b']) auto
qed

lemma synchronise_InrD:
  assumes "synchronise srt up p c = Inr (c', msgs)"
  shows "boxes c' = srt (\<lambda>b. find_pos (getObjects p False) (pointer b))
           (addOrUpdateBoxes up (getObjects p False)
              (clearDeletedBoxes (getObjects p False) (boxes c)))"
    and "isGraph c' = isGraph c" and "presentationMode c' = presentationMode c"
    and "selectedComponents c' = []"
    and "\<exists>cnv. ptr p = Some cnv"
    and "isGraph c \<or> presentationMode c \<Longrightarrow> connections c' = connections c \<and> msgs = []"
    and "\<not> (isGraph c \<or> presentationMode c) \<Longrightarrow>
         \<exists>cnv cons1. ptr p = Some cnv
           \<and> removeDeprecatedConnections p (getObjects p False) (boxes c) (connections c) = Inr cons1
           \<and> syncConnections cnv (boxes c')
                (map (\<lambda>t. (tr_inno t, tr_ob t, tr_outno t, tr_ob2 t)) (gl_lines cnv)) cons1 []
              = Inr (connections c', msgs)"
  using assms
  by (auto simp: synchronise_def deselectAll_def getConnections_def Let_def
      split: sum.splits option.splits if_splits)

lemma unique_boxes_filter: "unique_boxes bs \<Longrightarrow> unique_boxes (filter Q bs)"
  unfolding unique_boxes_def by (induction bs) auto

lemma unique_boxes_addOrUpdateBox:
  assumes "unique_boxes bs"
  shows "unique_boxes (addOrUpdateBox up obj bs)"
proof (cases "updateFound up obj bs")
  case None
  then have "\<forall>b\<in>set bs. \<not> (pointer b \<noteq> 0 \<and> pointer b = g_addr obj)"
    by (simp add: updateFound_None)
  then have "g_addr obj \<noteq> 0 \<Longrightarrow> g_addr obj \<notin> set (map pointer bs)"
    by auto
  with assms None show ?thesis
    by (auto simp: unique_boxes_def addOrUpdateBox_def new_Box_def)
next
  case (Some bs')
  then have "map pointer bs' = map pointer bs"
    by (simp add: updateFound_Some_maps)
  with assms Some show ?thesis
    by (simp add: unique_boxes_def addOrUpdateBox_def)
qed

lemma unique_boxes_addOrUpdateBoxes:
  "unique_boxes bs \<Longrightarrow> unique_boxes (addOrUpdateBoxes up objects bs)"
  by (induction objects arbitrary: bs) (auto intro: unique_boxes_addOrUpdateBox)

lemma unique_boxes_mset: "mset bs' = mset bs \<Longrightarrow> unique_boxes bs' \<longleftrightarrow> unique_boxes bs"
proof -
  assume "mset bs' = mset bs"
  then have "mset (filter (\<lambda>a. a \<noteq> 0) (map pointer bs')) = mset (filter (\<lambda>a. a \<noteq> 0) (map pointer bs))"
    by (metis mset_filter mset_map)
  then show ?thesis
    unfolding unique_boxes_def by (rule mset_eq_imp_distinct_iff)
qed

lemma unique_boxes_synchronise:
  assumes "std_sort srt" "unique_boxes (boxes c)" "synchronise srt up p c = Inr (c', msgs)"
  shows "unique_boxes (boxes c')"
proof -
  let ?objs = "getObjects p False"
  have "unique_boxes (addOrUpdateBoxes up ?objs (clearDeletedBoxes ?objs (boxes c)))"
    using assms(2) unfolding clearDeletedBoxes_def
    by (intro unique_boxes_addOrUpdateBoxes unique_boxes_filter)
  then show ?thesis
    using synchronise_InrD(1) [OF assms(3)] unique_boxes_mset [OF std_sort_mset [OF assms(1)]]
    by simp
qed

lemma addOrUpdateBox_new_only_if_absent:
  "length (addOrUpdateBox up obj bs) = (if \<exists>b\<in>set bs. pointer b \<noteq> 0 \<and> pointer b = g_addr obj
      then length bs else Suc (length bs))"
proof (cases "updateFound up obj bs")
  case None
  then have "\<not> (\<exists>b\<in>set bs. pointer b \<noteq> 0 \<and> pointer b = g_addr obj)"
    using updateFound_None [of up obj bs] by blast
  with None show ?thesis by (simp add: addOrUpdateBox_def)
next
  case (Some bs')
  then have "length (map pointer bs') = length (map pointer bs)"
    by (simp add: updateFound_Some_maps)
  moreover from Some have "\<exists>b\<in>set bs. pointer b \<noteq> 0 \<and> pointer b = g_addr obj"
    using updateFound_None [of up obj bs] by auto
  ultimately show ?thesis using Some by (simp add: addOrUpdateBox_def)
qed

lemma fold_max_ge: "m \<le> fold (\<lambda>b m. max (box_id b) m) bs (m::nat)"
proof (induction bs arbitrary: m)
  case Nil
  then show ?case by simp
next
  case (Cons x xs)
  have "m \<le> max (box_id x) m" by simp
  also have "\<dots> \<le> fold (\<lambda>b m. max (box_id b) m) xs (max (box_id x) m)" by (rule Cons.IH)
  finally show ?case by simp
qed

lemma fold_max_mem: "b \<in> set bs \<Longrightarrow> box_id b \<le> fold (\<lambda>b m. max (box_id b) m) bs m"
proof (induction bs arbitrary: m)
  case Nil
  then show ?case by simp
next
  case (Cons x xs)
  show ?case
  proof (cases "b = x")
    case True
    have "box_id x \<le> max (box_id x) m" by simp
    also have "\<dots> \<le> fold (\<lambda>b m. max (box_id b) m) xs (max (box_id x) m)" by (rule fold_max_ge)
    finally show ?thesis using True by simp
  next
    case False
    with Cons show ?thesis by simp
  qed
qed

lemma fresh_id_fresh: "b \<in> set bs \<Longrightarrow> box_id b < fresh_id bs"
  unfolding fresh_id_def using fold_max_mem [of b bs 0] by simp

lemma wf_heap_filter: "wf_heap bs \<Longrightarrow> wf_heap (filter Q bs)"
  unfolding wf_heap_def by (simp add: distinct_map_filter)

lemma wf_heap_addOrUpdateBox:
  assumes "wf_heap bs" shows "wf_heap (addOrUpdateBox up obj bs)"
proof (cases "updateFound up obj bs")
  case None
  have "fresh_id bs \<notin> box_id ` set bs" using fresh_id_fresh by fastforce
  with assms None show ?thesis
    by (simp add: addOrUpdateBox_def wf_heap_def new_Box_def)
next
  case (Some bs')
  then have "map box_id bs' = map box_id bs" by (simp add: updateFound_Some_maps)
  with assms Some show ?thesis by (simp add: addOrUpdateBox_def wf_heap_def)
qed

lemma wf_heap_addOrUpdateBoxes: "wf_heap bs \<Longrightarrow> wf_heap (addOrUpdateBoxes up objects bs)"
  by (induction objects arbitrary: bs) (auto intro: wf_heap_addOrUpdateBox)

lemma wf_heap_mset: "mset bs' = mset bs \<Longrightarrow> wf_heap bs' \<longleftrightarrow> wf_heap bs"
  unfolding wf_heap_def by (metis mset_map mset_eq_imp_distinct_iff)

lemma wf_heap_synchronise:
  assumes "std_sort srt" "wf_heap (boxes c)" "synchronise srt up p c = Inr (c', msgs)"
  shows "wf_heap (boxes c')"
proof -
  let ?objs = "getObjects p False"
  have "wf_heap (addOrUpdateBoxes up ?objs (clearDeletedBoxes ?objs (boxes c)))"
    using assms(2) unfolding clearDeletedBoxes_def
    by (intro wf_heap_addOrUpdateBoxes wf_heap_filter)
  then show ?thesis
    using synchronise_InrD(1) [OF assms(3)] wf_heap_mset [OF std_sort_mset [OF assms(1)]]
    by simp
qed

lemma deref_box_SomeD: "deref_box bs a = Some b \<Longrightarrow> b \<in> set bs \<and> box_id b = a"
  unfolding deref_box_def by (auto simp: find_Some_iff)

lemma deref_box_wf: "wf_heap bs \<Longrightarrow> b \<in> set bs \<Longrightarrow> deref_box bs (box_id b) = Some b"
proof (induction bs)
  case Nil
  then show ?case by simp
next
  case (Cons x xs)
  then show ?case by (auto simp: deref_box_def wf_heap_def)
qed

lemma find_pos_less: "find_pos objects a < length objects \<longleftrightarrow> a \<in> g_addr ` set objects"
  by (induction objects) auto

lemma find_pos_le: "find_pos objects a \<le> length objects"
  by (induction objects) auto

lemma find_pos_nth: "a \<in> g_addr ` set objects \<Longrightarrow> g_addr (objects ! find_pos objects a) = a"
  by (induction objects) auto

lemma find_pos_distinct:
  "distinct (map g_addr objects) \<Longrightarrow> i < length objects \<Longrightarrow> find_pos objects (g_addr (objects ! i)) = i"
proof (induction objects arbitrary: i)
  case Nil
  then show ?case by simp
next
  case (Cons x xs)
  then show ?case by (cases i) (auto simp: rev_image_eqI)
qed

lemma sorted_split:
  "sorted (map k xs) \<Longrightarrow> xs = filter (\<lambda>x. k x < (n::nat)) xs @ filter (\<lambda>x. \<not> k x < n) xs"
proof (induction xs)
  case Nil
  then show ?case by simp
next
  case (Cons x xs)
  show ?case
  proof (cases "k x < n")
    case True
    with Cons show ?thesis by simp
  next
    case False
    from Cons.prems have "\<forall>y\<in>set xs. k x \<le> k y" by simp
    with False have "\<forall>y\<in>set xs. \<not> k y < n" by auto
    then have "filter (\<lambda>x. k x < n) xs = []" "filter (\<lambda>x. \<not> k x < n) xs = xs"
      by (simp_all add: filter_empty_conv filter_id_conv)
    with False show ?thesis by simp
  qed
qed

lemma addOrUpdateBox_covers: "\<exists>b\<in>set (addOrUpdateBox up obj bs). pointer b = g_addr obj"
proof (cases "updateFound up obj bs")
  case None
  then show ?thesis by (simp add: addOrUpdateBox_def new_Box_def)
next
  case (Some bs')
  then obtain b where "b \<in> set bs" "pointer b = g_addr obj"
    using updateFound_None [of up obj bs] by auto
  with updateFound_Some_keeps [OF Some] Some show ?thesis
    by (fastforce simp: addOrUpdateBox_def)
qed

lemma addOrUpdateBoxes_covers:
  "obj \<in> set objects \<Longrightarrow> \<exists>b\<in>set (addOrUpdateBoxes up objects bs). pointer b = g_addr obj"
proof (induction objects arbitrary: bs)
  case Nil
  then show ?case by simp
next
  case (Cons o1 objects)
  show ?case
  proof (cases "obj = o1")
    case True
    from addOrUpdateBox_covers [of up o1 bs] obtain b where
      "b \<in> set (addOrUpdateBox up o1 bs)" "pointer b = g_addr o1" by blast
    with addOrUpdateBoxes_keeps [of b "addOrUpdateBox up o1 bs" up objects] True
    show ?thesis by auto
  next
    case False
    with Cons show ?thesis by simp
  qed
qed

lemma updateFound_Some_old:
  "updateFound up obj bs = Some bs' \<Longrightarrow> b \<in> set bs' \<Longrightarrow> pointer b \<noteq> g_addr obj \<Longrightarrow> b \<in> set bs"
  by (induction bs arbitrary: bs')
     (auto simp: updatePorts_def updateBounds_def split: if_splits)

lemma addOrUpdateBox_old:
  "b \<in> set (addOrUpdateBox up obj bs) \<Longrightarrow> pointer b \<noteq> g_addr obj \<Longrightarrow> b \<in> set bs"
  by (cases "updateFound up obj bs")
     (auto simp: addOrUpdateBox_def new_Box_def dest: updateFound_Some_old)

lemma addOrUpdateBoxes_old:
  "b \<in> set (addOrUpdateBoxes up objects bs) \<Longrightarrow> pointer b \<notin> g_addr ` set objects \<Longrightarrow> b \<in> set bs"
  by (induction objects arbitrary: bs) (auto dest: addOrUpdateBox_old)

text \<open>The sorted boxes begin with boxes of listed objects, at least as many as objects.\<close>

lemma sorted_boxes_live_prefix:
  fixes objects :: "gobj list" and bs :: "Box list"
  defines "k \<equiv> \<lambda>b. find_pos objects (pointer b)"
  assumes sorted: "sorted (map k bs)"
    and covers: "\<forall>obj\<in>set objects. \<exists>b\<in>set bs. pointer b = g_addr obj"
    and dist: "distinct (map g_addr objects)"
    and m: "m < length objects"
  shows "m < length bs \<and> pointer (bs ! m) \<in> g_addr ` set objects"
proof -
  let ?N = "length objects"
  let ?L = "filter (\<lambda>b. k b < ?N) bs"
  have split: "bs = ?L @ filter (\<lambda>b. \<not> k b < ?N) bs"
    using sorted by (rule sorted_split)
  have "{0..<?N} \<subseteq> k ` set ?L"
  proof
    fix i assume "i \<in> {0..<?N}"
    then have i: "i < ?N" by simp
    then obtain b where b: "b \<in> set bs" "pointer b = g_addr (objects ! i)"
      using covers by (metis nth_mem)
    then have "k b = i" using find_pos_distinct [OF dist i] by (simp add: k_def)
    with b i show "i \<in> k ` set ?L" by force
  qed
  then have "card {0..<?N} \<le> card (k ` set ?L)"
    by (intro card_mono) auto
  also have "\<dots> \<le> card (set ?L)" by (rule card_image_le) simp
  also have "\<dots> \<le> length ?L" by (rule card_length)
  finally have len: "?N \<le> length ?L" by simp
  with m have mL: "m < length ?L" by simp
  then have "bs ! m = ?L ! m"
    using split by (metis nth_append)
  moreover have "?L ! m \<in> set ?L" using mL by (rule nth_mem)
  ultimately have "k (bs ! m) < ?N" by simp
  then have "pointer (bs ! m) \<in> g_addr ` set objects"
    by (simp add: k_def find_pos_less)
  moreover have "m < length bs" using mL by (metis filter_is_subset length_filter_le less_le_trans)
  ultimately show ?thesis by simp
qed

text \<open>With one box for an object, the boxes of the listed objects are in the engine's order.\<close>

lemma sorted_unique_boxes_aligned:
  fixes objects :: "gobj list" and bs :: "Box list"
  defines "k \<equiv> \<lambda>b. find_pos objects (pointer b)"
  assumes sorted: "sorted (map k bs)"
    and covers: "\<forall>obj\<in>set objects. \<exists>b\<in>set bs. pointer b = g_addr obj"
    and dist: "distinct (map g_addr objects)"
    and nonnull: "\<forall>obj\<in>set objects. g_addr obj \<noteq> 0"
    and uniq: "unique_boxes bs"
  shows "map pointer (take (length objects) bs) = map g_addr objects"
    and "\<forall>b\<in>set (drop (length objects) bs). pointer b \<notin> g_addr ` set objects"
    and "length objects \<le> length bs"
proof -
  let ?N = "length objects"
  let ?L = "filter (\<lambda>b. k b < ?N) bs"
  let ?D = "filter (\<lambda>b. \<not> k b < ?N) bs"
  have split: "bs = ?L @ ?D"
    using sorted by (rule sorted_split)
  have live: "\<And>b. k b < ?N \<longleftrightarrow> pointer b \<in> g_addr ` set objects"
    by (simp add: k_def find_pos_less)
  have sub: "{0..<?N} \<subseteq> k ` set ?L"
  proof
    fix i assume "i \<in> {0..<?N}"
    then have i: "i < ?N" by simp
    then obtain b where b: "b \<in> set bs" "pointer b = g_addr (objects ! i)"
      using covers by (metis nth_mem)
    then have "k b = i" using find_pos_distinct [OF dist i] by (simp add: k_def)
    with b i show "i \<in> k ` set ?L" by force
  qed
  have setk: "set (map k ?L) = {0..<?N}"
    using sub by auto
  have sortedL: "sorted (map k ?L)"
    using sorted by (rule sorted_filter)
  have "distinct (map pointer (filter (\<lambda>b. pointer b \<noteq> 0) bs))"
    using uniq by (simp add: unique_boxes_def filter_map comp_def)
  then have "distinct (map pointer (filter (\<lambda>b. k b < ?N) (filter (\<lambda>b. pointer b \<noteq> 0) bs)))"
    by (rule distinct_map_filter)
  moreover have "filter (\<lambda>b. k b < ?N) (filter (\<lambda>b. pointer b \<noteq> 0) bs) = ?L"
    using nonnull by (auto simp: live intro!: filter_cong)
  ultimately have dptr: "distinct (map pointer ?L)" by simp
  have "inj_on (find_pos objects) (set (map pointer ?L))"
  proof (rule inj_onI)
    fix a a' assume a: "a \<in> set (map pointer ?L)" "a' \<in> set (map pointer ?L)"
      and eq: "find_pos objects a = find_pos objects a'"
    from a have "a \<in> g_addr ` set objects" "a' \<in> g_addr ` set objects"
      by (auto simp: live)
    then have "g_addr (objects ! find_pos objects a) = a" "g_addr (objects ! find_pos objects a') = a'"
      by (simp_all add: find_pos_nth)
    with eq show "a = a'" by metis
  qed
  with dptr have "distinct (map (find_pos objects) (map pointer ?L))"
    by (subst distinct_map) simp
  then have distk: "distinct (map k ?L)"
    by (simp add: k_def comp_def)
  have keys: "map k ?L = [0..<?N]"
    using sortedL distk setk
    by (intro sorted_distinct_set_unique) simp_all
  then have lenL: "length ?L = ?N"
    by (metis length_map length_upt minus_nat.diff_0)
  have ptrs: "map pointer ?L = map g_addr objects"
  proof (rule nth_equalityI)
    show "length (map pointer ?L) = length (map g_addr objects)" using lenL by simp
  next
    fix i assume "i < length (map pointer ?L)"
    then have i: "i < ?N" using lenL by simp
    have "map k ?L ! i = [0..<?N] ! i" by (simp only: keys)
    then have ki: "k (?L ! i) = i" using i lenL by simp
    have "?L ! i \<in> set ?L" using i lenL by (metis nth_mem)
    then have "k (?L ! i) < ?N" by simp
    then have "pointer (?L ! i) \<in> g_addr ` set objects" using live by blast
    then have "g_addr (objects ! find_pos objects (pointer (?L ! i))) = pointer (?L ! i)"
      by (rule find_pos_nth)
    moreover have "find_pos objects (pointer (?L ! i)) = i" using ki by (simp add: k_def)
    ultimately have "g_addr (objects ! i) = pointer (?L ! i)" by simp
    with i lenL show "map pointer ?L ! i = map g_addr objects ! i" by simp
  qed
  have tk: "take ?N bs = ?L"
    using lenL by (subst split) simp
  have dr: "drop ?N bs = ?D"
    using lenL by (subst split) simp
  show "map pointer (take ?N bs) = map g_addr objects"
    using ptrs tk by simp
  show "\<forall>b\<in>set (drop ?N bs). pointer b \<notin> g_addr ` set objects"
    using dr by (simp add: live)
  have "length ?L \<le> length bs" by (rule length_filter_le)
  then show "?N \<le> length bs"
    using lenL by simp
qed

lemma removeDeprecatedConnections_Inr:
  "removeDeprecatedConnections p objects bs cons = Inr cons1 \<Longrightarrow>
   set cons1 \<subseteq> set cons \<and> (\<forall>c\<in>set cons1. connectionDeprecated p objects bs c = Inr False)"
proof (induction cons arbitrary: cons1)
  case Nil
  then show ?case by simp
next
  case (Cons c cs)
  from Cons.prems obtain cs' where cs': "removeDeprecatedConnections p objects bs cs = Inr cs'"
    by (auto split: sum.splits)
  from Cons.IH [OF cs'] have IH: "set cs' \<subseteq> set cs"
    "\<forall>c\<in>set cs'. connectionDeprecated p objects bs c = Inr False" by simp_all
  from Cons.prems cs' obtain d where d: "connectionDeprecated p objects bs c = Inr d"
    by (auto split: sum.splits)
  show ?case
  proof (cases d)
    case True
    with Cons.prems cs' d have "cons1 = cs'" by simp
    with IH show ?thesis by auto
  next
    case False
    with Cons.prems cs' d have "cons1 = c # cs'" by simp
    with IH d False show ?thesis by auto
  qed
qed

lemma removeDeprecatedConnections_id:
  "\<forall>c\<in>set cons. connectionDeprecated p objects bs c = Inr False \<Longrightarrow>
   removeDeprecatedConnections p objects bs cons = Inr cons"
  by (induction cons) simp_all

lemma connectionDeprecated_False_iff:
  "connectionDeprecated p objects bs c = Inr False \<longleftrightarrow>
   inlet c \<noteq> None \<and> outlet c \<noteq> None
   \<and> (\<exists>ib ob cnv. deref_box bs (inbox c) = Some ib \<and> pointer ib \<in> g_addr ` set objects
         \<and> deref_box bs (outbox c) = Some ob \<and> pointer ob \<in> g_addr ` set objects
         \<and> ptr p = Some cnv
         \<and> canvas_isconnected cnv (pointer ob) (outIdx c) (pointer ib) (inIdx c))"
  by (auto simp: connectionDeprecated_def isObjectDeprecated_iff split: option.splits)

lemma getIndex_loop_nonneg:
  assumes "0 \<le> getIndex_loop ys obj 0"
  shows "\<exists>k<length (getObjects_loop False ys).
           getIndex_loop ys obj 0 = int k \<and> g_addr (getObjects_loop False ys ! k) = obj"
proof (cases "obj \<in> g_addr ` set (getObjects_loop False ys)")
  case True
  from getIndex_loop_present [OF this, of 0] show ?thesis by auto
next
  case False
  from getIndex_loop_absent [OF this, of 0] assms show ?thesis by simp
qed

lemma OwnedArray_get_Some:
  "OwnedArray_get xs i = Some x \<longleftrightarrow> 0 \<le> i \<and> nat i < length xs \<and> x = xs ! nat i"
  by (auto simp: OwnedArray_get_def)

lemma new_Connection_Inr:
  "new_Connection (edge_at src i) outno (edge_at sink j) inno = Inr c \<Longrightarrow>
   inlet c \<noteq> None \<and> outlet c \<noteq> None \<and> inbox c = box_id sink \<and> outbox c = box_id src
   \<and> inIdx c = inno \<and> outIdx c = outno"
  by (auto simp: new_Connection_def edge_at_def split: option.splits if_splits)

lemma syncConnections_invariant:
  assumes "syncConnections cnv bs ts cons msgs = Inr (cons', msgs')"
    and "\<forall>c\<in>set cons. P c"
    and "\<And>inno inobj outno outobj src sink c.
           (inno, inobj, outno, outobj) \<in> set ts \<Longrightarrow>
           OwnedArray_get bs (getIndex_loop (gl_list cnv) inobj 0) = Some src \<Longrightarrow>
           OwnedArray_get bs (getIndex_loop (gl_list cnv) outobj 0) = Some sink \<Longrightarrow>
           new_Connection (edge_at src (int (numInputs src) + outno)) outno (edge_at sink inno) inno
             = Inr c \<Longrightarrow> P c"
  shows "\<forall>c\<in>set cons'. P c"
  using assms
proof (induction ts arbitrary: cons msgs)
  case Nil
  then show ?case by simp
next
  case (Cons t ts)
  obtain inno inobj outno outobj where t: "t = (inno, inobj, outno, outobj)"
    by (cases t) auto
  let ?srcno = "getIndex_loop (gl_list cnv) inobj 0"
  let ?sinkno = "getIndex_loop (gl_list cnv) outobj 0"
  from Cons.prems(1) t obtain src where src: "OwnedArray_get bs ?srcno = Some src"
    by (auto simp: Let_def split: option.splits)
  from Cons.prems(1) t src obtain sink where sink: "OwnedArray_get bs ?sinkno = Some sink"
    by (auto simp: Let_def split: option.splits)
  have step: "\<And>cons2 msgs2. syncConnections cnv bs ts cons2 msgs2 = Inr (cons', msgs') \<Longrightarrow>
      \<forall>c\<in>set cons2. P c \<Longrightarrow> \<forall>c\<in>set cons'. P c"
    using Cons.IH Cons.prems(3) by (metis list.set_intros(2))
  show ?case
  proof (cases "?srcno \<ge> int (length bs) \<or> ?sinkno \<ge> int (length bs)
                 \<or> outno \<ge> int (edges_size src) \<or> inno \<ge> int (edges_size sink)")
    case True
    with Cons.prems(1) t src sink
    have "syncConnections cnv bs ts cons (msgs @ [''Error: impossible connection''])
            = Inr (cons', msgs')"
      by (simp add: Let_def)
    from step [OF this Cons.prems(2)] show ?thesis .
  next
    case False
    show ?thesis
    proof (cases "find (sameConnection src sink inno outno) cons")
      case (Some c0)
      with Cons.prems(1) t src sink False
      have "syncConnections cnv bs ts cons msgs = Inr (cons', msgs')"
        by (simp add: Let_def)
      from step [OF this Cons.prems(2)] show ?thesis .
    next
      case None
      with Cons.prems(1) t src sink False obtain c where
        c: "new_Connection (edge_at src (int (numInputs src) + outno)) outno (edge_at sink inno) inno
              = Inr c"
        and rest: "syncConnections cnv bs ts (cons @ [c]) msgs = Inr (cons', msgs')"
        by (auto simp: Let_def split: sum.splits)
      have "P c"
        using Cons.prems(3) [OF _ src sink c] t by simp
      with Cons.prems(2) have "\<forall>x\<in>set (cons @ [c]). P x" by simp
      from step [OF rest this] show ?thesis .
    qed
  qed
qed

lemma tupleHandled_mono:
  "set X \<subseteq> set X' \<Longrightarrow> tupleHandled cnv bs X t \<Longrightarrow> tupleHandled cnv bs X' t"
  by (auto simp: tupleHandled_def Let_def list_ex_iff split: prod.splits option.splits)

lemma syncConnections_handles:
  "syncConnections cnv bs ts cons msgs = Inr (cons', msgs') \<Longrightarrow>
   set cons \<subseteq> set cons' \<and> (\<forall>t\<in>set ts. tupleHandled cnv bs cons' t)"
proof (induction ts arbitrary: cons msgs)
  case Nil
  then show ?case by simp
next
  case (Cons t ts)
  obtain inno inobj outno outobj where t: "t = (inno, inobj, outno, outobj)"
    by (cases t) auto
  let ?srcno = "getIndex_loop (gl_list cnv) inobj 0"
  let ?sinkno = "getIndex_loop (gl_list cnv) outobj 0"
  from Cons.prems(1) t obtain src where src: "OwnedArray_get bs ?srcno = Some src"
    by (auto simp: Let_def split: option.splits)
  from Cons.prems(1) t src obtain sink where sink: "OwnedArray_get bs ?sinkno = Some sink"
    by (auto simp: Let_def split: option.splits)
  have "\<exists>cons2 msgs2. syncConnections cnv bs ts cons2 msgs2 = Inr (cons', msgs')
          \<and> set cons \<subseteq> set cons2 \<and> tupleHandled cnv bs cons2 t"
  proof (cases "?srcno \<ge> int (length bs) \<or> ?sinkno \<ge> int (length bs)
                 \<or> outno \<ge> int (edges_size src) \<or> inno \<ge> int (edges_size sink)")
    case True
    with Cons.prems(1) t src sink
    have "syncConnections cnv bs ts cons (msgs @ [''Error: impossible connection''])
            = Inr (cons', msgs')"
      by (simp add: Let_def)
    moreover have "tupleHandled cnv bs cons t"
      using True t src sink by (simp add: tupleHandled_def Let_def)
    ultimately show ?thesis by blast
  next
    case False
    show ?thesis
    proof (cases "find (sameConnection src sink inno outno) cons")
      case (Some c0)
      with Cons.prems(1) t src sink False
      have "syncConnections cnv bs ts cons msgs = Inr (cons', msgs')"
        by (simp add: Let_def)
      moreover from Some have "list_ex (sameConnection src sink inno outno) cons"
        by (auto simp: list_ex_iff find_Some_iff)
      then have "tupleHandled cnv bs cons t"
        using t src sink by (simp add: tupleHandled_def Let_def)
      ultimately show ?thesis by blast
    next
      case None
      with Cons.prems(1) t src sink False obtain c where
        c: "new_Connection (edge_at src (int (numInputs src) + outno)) outno (edge_at sink inno) inno
              = Inr c"
        and rest: "syncConnections cnv bs ts (cons @ [c]) msgs = Inr (cons', msgs')"
        by (auto simp: Let_def split: sum.splits)
      from new_Connection_Inr [OF c] have "sameConnection src sink inno outno c"
        by (simp add: sameConnection_def)
      then have "tupleHandled cnv bs (cons @ [c]) t"
        using t src sink by (simp add: tupleHandled_def Let_def)
      with rest show ?thesis by (intro exI [of _ "cons @ [c]"] exI [of _ msgs]) auto
    qed
  qed
  then obtain cons2 msgs2 where
    rest: "syncConnections cnv bs ts cons2 msgs2 = Inr (cons', msgs')"
    and sub: "set cons \<subseteq> set cons2" and h: "tupleHandled cnv bs cons2 t"
    by blast
  from Cons.IH [OF rest] have IH: "set cons2 \<subseteq> set cons'" "\<forall>t\<in>set ts. tupleHandled cnv bs cons' t"
    by simp_all
  from tupleHandled_mono [OF IH(1) h] IH sub show ?case by auto
qed

lemma syncConnections_handled_id:
  "\<forall>t\<in>set ts. tupleHandled cnv bs X t \<Longrightarrow> \<exists>msgs'. syncConnections cnv bs ts X msgs = Inr (X, msgs')"
proof (induction ts arbitrary: msgs)
  case Nil
  then show ?case by simp
next
  case (Cons t ts)
  obtain inno inobj outno outobj where t: "t = (inno, inobj, outno, outobj)"
    by (cases t) auto
  let ?srcno = "getIndex_loop (gl_list cnv) inobj 0"
  let ?sinkno = "getIndex_loop (gl_list cnv) outobj 0"
  from Cons.prems t have h: "tupleHandled cnv bs X (inno, inobj, outno, outobj)" by simp
  then obtain src sink where src: "OwnedArray_get bs ?srcno = Some src"
    and sink: "OwnedArray_get bs ?sinkno = Some sink"
    by (auto simp: tupleHandled_def Let_def split: option.splits)
  from Cons.prems have rest: "\<And>m. \<exists>msgs'. syncConnections cnv bs ts X m = Inr (X, msgs')"
    using Cons.IH by simp
  show ?case
  proof (cases "?srcno \<ge> int (length bs) \<or> ?sinkno \<ge> int (length bs)
                 \<or> outno \<ge> int (edges_size src) \<or> inno \<ge> int (edges_size sink)")
    case True
    with t src sink rest [of "msgs @ [''Error: impossible connection'']"] show ?thesis
      by (simp add: Let_def)
  next
    case False
    with h src sink have "list_ex (sameConnection src sink inno outno) X"
      by (simp add: tupleHandled_def Let_def)
    then obtain c0 where "find (sameConnection src sink inno outno) X = Some c0"
      by (cases "find (sameConnection src sink inno outno) X")
         (auto simp: find_None_iff list_ex_iff)
    with t src sink False rest [of msgs] show ?thesis
      by (simp add: Let_def)
  qed
qed

lemma getObjects_loop_filter: "getObjects_loop False ys = filter (\<lambda>y. \<not> isInfoParent y) ys"
  by (induction ys) auto

lemma wf_patch_objects:
  assumes "wf_patch p"
  shows "distinct (map g_addr (getObjects p False))"
    and "\<forall>obj\<in>set (getObjects p False). g_addr obj \<noteq> 0"
  using assms
  by (auto simp: wf_patch_def wf_canvas_def getObjects_def getObjects_loop_filter
      distinct_map_filter list_all_iff split: option.splits)

lemma synchronise_boxes_facts:
  assumes srt: "std_sort srt" and sync: "synchronise srt up p c = Inr (c', msgs)"
  shows "sorted (map (\<lambda>b. find_pos (getObjects p False) (pointer b)) (boxes c'))"
    and "\<forall>obj\<in>set (getObjects p False). \<exists>b\<in>set (boxes c'). pointer b = g_addr obj"
    and "\<forall>b\<in>set (boxes c'). pointer b \<notin> g_addr ` set (getObjects p False)
           \<longrightarrow> b \<in> set (boxes c) \<and> \<not> gui b"
proof -
  let ?objs = "getObjects p False"
  let ?bs1 = "clearDeletedBoxes ?objs (boxes c)"
  let ?bs2 = "addOrUpdateBoxes up ?objs ?bs1"
  have bs3: "boxes c' = srt (\<lambda>b. find_pos ?objs (pointer b)) ?bs2"
    using sync by (rule synchronise_InrD(1))
  have set3: "set (boxes c') = set ?bs2"
    using bs3 std_sort_set [OF srt] by simp
  show "sorted (map (\<lambda>b. find_pos ?objs (pointer b)) (boxes c'))"
    using bs3 std_sort_sorted [OF srt] by simp
  show "\<forall>obj\<in>set ?objs. \<exists>b\<in>set (boxes c'). pointer b = g_addr obj"
    using set3 addOrUpdateBoxes_covers [of _ ?objs up ?bs1] by simp
  show "\<forall>b\<in>set (boxes c'). pointer b \<notin> g_addr ` set ?objs \<longrightarrow> b \<in> set (boxes c) \<and> \<not> gui b"
  proof (intro ballI impI)
    fix b assume b: "b \<in> set (boxes c')" and dep: "pointer b \<notin> g_addr ` set ?objs"
    from b set3 have "b \<in> set ?bs2" by simp
    from addOrUpdateBoxes_old [OF this dep] have "b \<in> set ?bs1" .
    with dep show "b \<in> set (boxes c) \<and> \<not> gui b"
      by (auto simp: clearDeletedBoxes_def isObjectDeprecated_iff)
  qed
qed

text \<open>A box that a connection reaches and whose object is listed is reached afterwards.\<close>

lemma synchronise_deref_live:
  assumes srt: "std_sort srt" and heap: "wf_heap (boxes c)"
    and sync: "synchronise srt up p c = Inr (c', msgs)"
    and b: "deref_box (boxes c) a = Some b" and live: "pointer b \<in> g_addr ` set (getObjects p False)"
  shows "\<exists>b'. deref_box (boxes c') a = Some b' \<and> pointer b' = pointer b"
proof -
  let ?objs = "getObjects p False"
  let ?bs1 = "clearDeletedBoxes ?objs (boxes c)"
  let ?bs2 = "addOrUpdateBoxes up ?objs ?bs1"
  from deref_box_SomeD [OF b] have "b \<in> set (boxes c)" "box_id b = a" by simp_all
  with live have "b \<in> set ?bs1"
    by (simp add: clearDeletedBoxes_def isObjectDeprecated_iff)
  from addOrUpdateBoxes_keeps [OF this, of up ?objs] obtain b' where b':
    "b' \<in> set ?bs2" "box_id b' = box_id b" "pointer b' = pointer b" by blast
  have "set (boxes c') = set ?bs2"
    using synchronise_InrD(1) [OF sync] std_sort_set [OF srt] by simp
  with b' have "b' \<in> set (boxes c')" by simp
  from deref_box_wf [OF wf_heap_synchronise [OF srt heap sync] this]
  show ?thesis using b' \<open>box_id b = a\<close> by auto
qed

lemma resolved_box_live:
  fixes objects :: "gobj list" and bs :: "Box list"
  assumes sorted: "sorted (map (\<lambda>b. find_pos objects (pointer b)) bs)"
    and covers: "\<forall>obj\<in>set objects. \<exists>b\<in>set bs. pointer b = g_addr obj"
    and dist: "distinct (map g_addr objects)"
    and objs: "objects = getObjects_loop False (gl_list cnv)"
    and get: "OwnedArray_get bs (getIndex_loop (gl_list cnv) obj 0) = Some b"
  shows "b \<in> set bs \<and> pointer b \<in> g_addr ` set objects"
proof -
  from get have nonneg: "0 \<le> getIndex_loop (gl_list cnv) obj 0"
    and b: "b = bs ! nat (getIndex_loop (gl_list cnv) obj 0)"
    and len: "nat (getIndex_loop (gl_list cnv) obj 0) < length bs"
    by (simp_all add: OwnedArray_get_Some)
  from getIndex_loop_nonneg [OF nonneg] obtain k where
    k: "k < length objects" "getIndex_loop (gl_list cnv) obj 0 = int k"
    using objs by auto
  from sorted_boxes_live_prefix [OF sorted covers dist k(1)]
  have "pointer (bs ! k) \<in> g_addr ` set objects" by simp
  with b len k show ?thesis by simp
qed

lemma resolved_box_aligned:
  fixes objects :: "gobj list" and bs :: "Box list"
  assumes sorted: "sorted (map (\<lambda>b. find_pos objects (pointer b)) bs)"
    and covers: "\<forall>obj\<in>set objects. \<exists>b\<in>set bs. pointer b = g_addr obj"
    and dist: "distinct (map g_addr objects)"
    and nonnull: "\<forall>obj\<in>set objects. g_addr obj \<noteq> 0"
    and uniq: "unique_boxes bs"
    and objs: "objects = getObjects_loop False (gl_list cnv)"
    and get: "OwnedArray_get bs (getIndex_loop (gl_list cnv) obj 0) = Some b"
  shows "pointer b = obj"
proof -
  from get have nonneg: "0 \<le> getIndex_loop (gl_list cnv) obj 0"
    and b: "b = bs ! nat (getIndex_loop (gl_list cnv) obj 0)"
    by (simp_all add: OwnedArray_get_Some)
  from getIndex_loop_nonneg [OF nonneg] obtain k where
    k: "k < length objects" "getIndex_loop (gl_list cnv) obj 0 = int k"
       "g_addr (objects ! k) = obj"
    using objs by auto
  have al: "map pointer (take (length objects) bs) = map g_addr objects"
    and le: "length objects \<le> length bs"
    using sorted_unique_boxes_aligned [OF sorted covers dist nonnull uniq] by simp_all
  have "pointer (bs ! k) = map pointer (take (length objects) bs) ! k"
    using k(1) le by simp
  also have "\<dots> = g_addr (objects ! k)"
    using k(1) by (simp only: al) simp
  finally show ?thesis using b k by simp
qed

lemma wf_patch_ex: "wf_patch ex_patch"
  by code_simp

lemma wf_heap_ex: "wf_heap (boxes ex_canvas)"
  by code_simp

lemma std_sort_sort_reversed: "std_sort sort_reversed"
  by (simp add: std_sort_def sort_reversed_def)

lemma unique_boxes_inj:
  assumes "unique_boxes bs" "b \<in> set bs" "b' \<in> set bs" "pointer b = pointer b'" "pointer b \<noteq> 0"
  shows "b = b'"
proof -
  have "distinct (map pointer (filter (\<lambda>b. pointer b \<noteq> 0) bs))"
    using assms(1) by (simp add: unique_boxes_def filter_map comp_def)
  then have "inj_on pointer (set (filter (\<lambda>b. pointer b \<noteq> 0) bs))"
    by (simp add: distinct_map)
  moreover have "b \<in> set (filter (\<lambda>b. pointer b \<noteq> 0) bs)" "b' \<in> set (filter (\<lambda>b. pointer b \<noteq> 0) bs)"
    using assms by simp_all
  ultimately show ?thesis using assms(4) by (metis inj_onD)
qed

lemma updateFound_id:
  "\<exists>b\<in>set bs. pointer b \<noteq> 0 \<and> pointer b = g_addr obj \<Longrightarrow>
   \<forall>b\<in>set bs. pointer b = g_addr obj \<longrightarrow> boxSynced up obj b \<Longrightarrow>
   updateFound up obj bs = Some bs"
proof (induction bs)
  case Nil
  then show ?case by simp
next
  case (Cons x xs)
  show ?case
  proof (cases "pointer x \<noteq> 0 \<and> pointer x = g_addr obj")
    case True
    with Cons.prems(2) have "boxSynced up obj x" by simp
    then have "updatePorts obj x = x" "up \<Longrightarrow> updateBounds obj x = x"
      by (simp_all add: boxSynced_def updatePorts_def updateBounds_def)
    with True show ?thesis by simp
  next
    case False
    with Cons.prems have "\<exists>b\<in>set xs. pointer b \<noteq> 0 \<and> pointer b = g_addr obj"
      "\<forall>b\<in>set xs. pointer b = g_addr obj \<longrightarrow> boxSynced up obj b" by auto
    from Cons.IH [OF this] have "updateFound up obj xs = Some xs" .
    with False show ?thesis by auto
  qed
qed

lemma addOrUpdateBoxes_id:
  "\<forall>obj\<in>set objects. (\<exists>b\<in>set bs. pointer b \<noteq> 0 \<and> pointer b = g_addr obj)
      \<and> (\<forall>b\<in>set bs. pointer b = g_addr obj \<longrightarrow> boxSynced up obj b) \<Longrightarrow>
   addOrUpdateBoxes up objects bs = bs"
  by (induction objects) (simp_all add: addOrUpdateBox_def updateFound_id)

lemma updateFound_synced:
  "unique_boxes bs \<Longrightarrow> g_addr obj \<noteq> 0 \<Longrightarrow> updateFound up obj bs = Some bs' \<Longrightarrow>
   b \<in> set bs' \<Longrightarrow> pointer b = g_addr obj \<Longrightarrow> boxSynced up obj b"
proof (induction bs arbitrary: bs')
  case Nil
  then show ?case by simp
next
  case (Cons x xs)
  show ?case
  proof (cases "pointer x \<noteq> 0 \<and> pointer x = g_addr obj")
    case True
    with Cons.prems(3) have bs': "bs' = (if up then updateBounds obj (updatePorts obj x)
               else updatePorts obj x) # xs" by simp
    from Cons.prems(1) True have "g_addr obj \<notin> pointer ` set xs"
      by (auto simp: unique_boxes_def)
    then have "\<forall>y\<in>set xs. pointer y \<noteq> g_addr obj"
      by (metis imageI)
    with Cons.prems(5) have "b \<notin> set xs" by auto
    with Cons.prems(4) bs' have "b = (if up then updateBounds obj (updatePorts obj x)
               else updatePorts obj x)" by (auto split: if_splits)
    then show ?thesis by (simp add: boxSynced_def updatePorts_def updateBounds_def)
  next
    case False
    with Cons.prems(3) obtain xs' where xs': "updateFound up obj xs = Some xs'" "bs' = x # xs'"
      by auto
    from Cons.prems(1) have u: "unique_boxes xs" by (auto simp: unique_boxes_def split: if_splits)
    from False Cons.prems(2,5) have "b \<noteq> x" by auto
    with Cons.prems(4) xs' have "b \<in> set xs'" by simp
    from Cons.IH [OF u Cons.prems(2) xs'(1) this Cons.prems(5)] show ?thesis .
  qed
qed

lemma addOrUpdateBox_synced:
  assumes "unique_boxes bs" "g_addr obj \<noteq> 0" "b \<in> set (addOrUpdateBox up obj bs)"
    "pointer b = g_addr obj"
  shows "boxSynced up obj b"
proof (cases "updateFound up obj bs")
  case None
  then have "\<forall>b\<in>set bs. pointer b \<noteq> g_addr obj"
    using assms(2) by (auto simp: updateFound_None)
  with assms(3,4) None have "b = new_Box (fresh_id bs) obj"
    by (auto simp: addOrUpdateBox_def)
  then show ?thesis by (simp add: boxSynced_def new_Box_def)
next
  case (Some bs')
  with assms(3) have "b \<in> set bs'" by (simp add: addOrUpdateBox_def)
  from updateFound_synced [OF assms(1,2) Some this assms(4)] show ?thesis .
qed

lemma addOrUpdateBoxes_synced:
  "unique_boxes bs \<Longrightarrow> distinct (map g_addr objects) \<Longrightarrow> \<forall>obj\<in>set objects. g_addr obj \<noteq> 0 \<Longrightarrow>
   obj \<in> set objects \<Longrightarrow> b \<in> set (addOrUpdateBoxes up objects bs) \<Longrightarrow> pointer b = g_addr obj \<Longrightarrow>
   boxSynced up obj b"
proof (induction objects arbitrary: bs)
  case Nil
  then show ?case by simp
next
  case (Cons o1 objects)
  have u: "unique_boxes (addOrUpdateBox up o1 bs)"
    using Cons.prems(1) by (rule unique_boxes_addOrUpdateBox)
  show ?case
  proof (cases "obj = o1")
    case True
    from Cons.prems(2) True have "g_addr obj \<notin> g_addr ` set objects" by auto
    with Cons.prems(6) have "pointer b \<notin> g_addr ` set objects" by simp
    moreover from Cons.prems(5)
    have "b \<in> set (addOrUpdateBoxes up objects (addOrUpdateBox up o1 bs))" by simp
    ultimately have "b \<in> set (addOrUpdateBox up o1 bs)"
      by (rule addOrUpdateBoxes_old [rotated])
    with addOrUpdateBox_synced [OF Cons.prems(1), of o1 b up] Cons.prems(3,6) True
    show ?thesis by simp
  next
    case False
    with Cons.prems have "obj \<in> set objects" "distinct (map g_addr objects)"
      "\<forall>obj\<in>set objects. g_addr obj \<noteq> 0" "b \<in> set (addOrUpdateBoxes up objects (addOrUpdateBox up o1 bs))"
      by simp_all
    from Cons.IH [OF u this(2,3,1,4) Cons.prems(6)] show ?thesis .
  qed
qed

lemma resolved_box_same:
  fixes bs bs' :: "Box list"
  assumes len: "length bs' = length bs"
    and tk: "take (length (getObjects_loop False (gl_list cnv))) bs'
             = take (length (getObjects_loop False (gl_list cnv))) bs"
  shows "OwnedArray_get bs' (getIndex_loop (gl_list cnv) obj 0)
         = OwnedArray_get bs (getIndex_loop (gl_list cnv) obj 0)"
proof (cases "0 \<le> getIndex_loop (gl_list cnv) obj 0")
  case False
  then show ?thesis by (simp add: OwnedArray_get_def)
next
  case True
  let ?N = "length (getObjects_loop False (gl_list cnv))"
  from getIndex_loop_nonneg [OF True] obtain k where
    k: "k < ?N" "getIndex_loop (gl_list cnv) obj 0 = int k" by blast
  have "bs' ! k = take ?N bs' ! k" using k(1) by simp
  also have "\<dots> = take ?N bs ! k" by (simp only: tk)
  also have "\<dots> = bs ! k" using k(1) by simp
  finally show ?thesis using k(2) len by (simp add: OwnedArray_get_def)
qed

lemma tupleHandled_same:
  fixes bs bs' :: "Box list"
  assumes len: "length bs' = length bs"
    and tk: "take (length (getObjects_loop False (gl_list cnv))) bs'
             = take (length (getObjects_loop False (gl_list cnv))) bs"
  shows "tupleHandled cnv bs' X t = tupleHandled cnv bs X t"
proof -
  obtain inno inobj outno outobj where t: "t = (inno, inobj, outno, outobj)"
    by (cases t) auto
  have a: "OwnedArray_get bs' (getIndex_loop (gl_list cnv) inobj 0)
             = OwnedArray_get bs (getIndex_loop (gl_list cnv) inobj 0)"
    and b: "OwnedArray_get bs' (getIndex_loop (gl_list cnv) outobj 0)
             = OwnedArray_get bs (getIndex_loop (gl_list cnv) outobj 0)"
    using len tk by (rule resolved_box_same)+
  show ?thesis
    unfolding t tupleHandled_def Let_def prod.case a b len ..
qed

text \<open>With one box for an object, no connection is deprecated when synchronise returns.\<close>

lemma synchronise_connections_current:
  assumes srt: "std_sort srt" and wfp: "wf_patch p" and heap: "wf_heap (boxes c)"
    and uniq: "unique_boxes (boxes c)"
    and editing: "\<not> (isGraph c \<or> presentationMode c)"
    and sync: "synchronise srt up p c = Inr (c', msgs)"
  shows "\<forall>con\<in>set (connections c').
           connectionDeprecated p (getObjects p False) (boxes c') con = Inr False"
proof -
  let ?objs = "getObjects p False"
  from synchronise_InrD(7) [OF sync editing] obtain cnv cons1 where
    cnv: "ptr p = Some cnv"
    and rm: "removeDeprecatedConnections p ?objs (boxes c) (connections c) = Inr cons1"
    and sc: "syncConnections cnv (boxes c')
               (map (\<lambda>t. (tr_inno t, tr_ob t, tr_outno t, tr_ob2 t)) (gl_lines cnv)) cons1 []
             = Inr (connections c', msgs)"
    by blast
  have objs: "?objs = getObjects_loop False (gl_list cnv)"
    using cnv by (simp add: getObjects_def)
  note facts = synchronise_boxes_facts [OF srt sync]
  note dist = wf_patch_objects(1) [OF wfp]
  note nonnull = wf_patch_objects(2) [OF wfp]
  have heap': "wf_heap (boxes c')"
    using srt heap sync by (rule wf_heap_synchronise)
  have uniq': "unique_boxes (boxes c')"
    using srt uniq sync by (rule unique_boxes_synchronise)
  show ?thesis
  proof (rule syncConnections_invariant [OF sc])
    show "\<forall>con\<in>set cons1. connectionDeprecated p ?objs (boxes c') con = Inr False"
    proof
      fix con assume "con \<in> set cons1"
      with removeDeprecatedConnections_Inr [OF rm]
      have "connectionDeprecated p ?objs (boxes c) con = Inr False" by simp
      then obtain ib ob cnv' where
        io: "inlet con \<noteq> None" "outlet con \<noteq> None"
        and ib: "deref_box (boxes c) (inbox con) = Some ib" "pointer ib \<in> g_addr ` set ?objs"
        and ob: "deref_box (boxes c) (outbox con) = Some ob" "pointer ob \<in> g_addr ` set ?objs"
        and conn: "ptr p = Some cnv'"
          "canvas_isconnected cnv' (pointer ob) (outIdx con) (pointer ib) (inIdx con)"
        unfolding connectionDeprecated_False_iff by blast
      from synchronise_deref_live [OF srt heap sync ib] obtain ib' where
        ib': "deref_box (boxes c') (inbox con) = Some ib'" "pointer ib' = pointer ib" by blast
      from synchronise_deref_live [OF srt heap sync ob] obtain ob' where
        ob': "deref_box (boxes c') (outbox con) = Some ob'" "pointer ob' = pointer ob" by blast
      show "connectionDeprecated p ?objs (boxes c') con = Inr False"
        unfolding connectionDeprecated_False_iff
        using io ib(2) ob(2) ib' ob' conn by simp
    qed
  next
    fix inno inobj outno outobj src sink con
    assume t: "(inno, inobj, outno, outobj)
                 \<in> set (map (\<lambda>t. (tr_inno t, tr_ob t, tr_outno t, tr_ob2 t)) (gl_lines cnv))"
      and src: "OwnedArray_get (boxes c') (getIndex_loop (gl_list cnv) inobj 0) = Some src"
      and sink: "OwnedArray_get (boxes c') (getIndex_loop (gl_list cnv) outobj 0) = Some sink"
      and con: "new_Connection (edge_at src (int (numInputs src) + outno)) outno
                  (edge_at sink inno) inno = Inr con"
    from resolved_box_live [OF facts(1,2) dist objs src]
    have s: "src \<in> set (boxes c')" "pointer src \<in> g_addr ` set ?objs" by simp_all
    from resolved_box_live [OF facts(1,2) dist objs sink]
    have k: "sink \<in> set (boxes c')" "pointer sink \<in> g_addr ` set ?objs" by simp_all
    from resolved_box_aligned [OF facts(1,2) dist nonnull uniq' objs src]
    have ps: "pointer src = inobj" .
    from resolved_box_aligned [OF facts(1,2) dist nonnull uniq' objs sink]
    have pk: "pointer sink = outobj" .
    from t have "canvas_isconnected cnv inobj outno outobj inno"
      by (auto simp: canvas_isconnected_def list_ex_iff)
    with new_Connection_Inr [OF con] deref_box_wf [OF heap' s(1)] deref_box_wf [OF heap' k(1)]
      s(2) k(2) ps pk cnv
    show "connectionDeprecated p ?objs (boxes c') con = Inr False"
      unfolding connectionDeprecated_False_iff by simp
  qed
qed

lemma sorted_unique_take_eq:
  fixes objects :: "gobj list" and bs bs' :: "Box list"
  assumes sorted: "sorted (map (\<lambda>b. find_pos objects (pointer b)) bs)"
    and sorted': "sorted (map (\<lambda>b. find_pos objects (pointer b)) bs')"
    and perm: "mset bs' = mset bs"
    and covers: "\<forall>obj\<in>set objects. \<exists>b\<in>set bs. pointer b = g_addr obj"
    and dist: "distinct (map g_addr objects)"
    and nonnull: "\<forall>obj\<in>set objects. g_addr obj \<noteq> 0"
    and uniq: "unique_boxes bs"
  shows "take (length objects) bs' = take (length objects) bs"
proof -
  let ?N = "length objects"
  have sets: "set bs' = set bs" using perm by (rule mset_eq_setD)
  have uniq': "unique_boxes bs'" using unique_boxes_mset [OF perm] uniq by simp
  have covers': "\<forall>obj\<in>set objects. \<exists>b\<in>set bs'. pointer b = g_addr obj"
    using covers sets by simp
  have al: "map pointer (take ?N bs) = map g_addr objects" and le: "?N \<le> length bs"
    using sorted_unique_boxes_aligned [OF sorted covers dist nonnull uniq] by simp_all
  have al': "map pointer (take ?N bs') = map g_addr objects" and le': "?N \<le> length bs'"
    using sorted_unique_boxes_aligned [OF sorted' covers' dist nonnull uniq'] by simp_all
  show ?thesis
  proof (rule nth_equalityI)
    show "length (take ?N bs') = length (take ?N bs)" using le le' by simp
  next
    fix i assume "i < length (take ?N bs')"
    then have i: "i < ?N" by simp
    have "pointer (take ?N bs ! i) = map pointer (take ?N bs) ! i" using i le by simp
    also have "\<dots> = g_addr (objects ! i)" using i by (simp only: al) simp
    finally have p: "pointer (take ?N bs ! i) = g_addr (objects ! i)" .
    have "pointer (take ?N bs' ! i) = map pointer (take ?N bs') ! i" using i le' by simp
    also have "\<dots> = g_addr (objects ! i)" using i by (simp only: al') simp
    finally have p': "pointer (take ?N bs' ! i) = g_addr (objects ! i)" .
    have "i < length bs" "i < length bs'" using i le le' by simp_all
    then have "bs ! i \<in> set bs" "bs' ! i \<in> set bs'" by (simp_all only: nth_mem)
    then have m: "take ?N bs ! i \<in> set bs" and m': "take ?N bs' ! i \<in> set bs"
      using i sets by simp_all
    have "g_addr (objects ! i) \<noteq> 0" using nonnull i by simp
    with unique_boxes_inj [OF uniq m' m] p p'
    show "take ?N bs' ! i = take ?N bs ! i" by simp
  qed
qed

lemma synchronise_editingI:
  assumes "\<not> (isGraph c \<or> presentationMode c)" and "ptr p = Some cnv"
    and "removeDeprecatedConnections p (getObjects p False) (boxes c) (connections c) = Inr cons1"
    and "syncConnections cnv
           (srt (\<lambda>b. find_pos (getObjects p False) (pointer b))
              (addOrUpdateBoxes up (getObjects p False)
                 (clearDeletedBoxes (getObjects p False) (boxes c))))
           (map (\<lambda>t. (tr_inno t, tr_ob t, tr_outno t, tr_ob2 t)) (gl_lines cnv)) cons1 []
         = Inr (cons2, msgs)"
  shows "synchronise srt up p c
         = Inr (c\<lparr>selectedComponents := [],
                  boxes := srt (\<lambda>b. find_pos (getObjects p False) (pointer b))
                    (addOrUpdateBoxes up (getObjects p False)
                       (clearDeletedBoxes (getObjects p False) (boxes c))),
                  connections := cons2\<rparr>, msgs)"
  using assms
  by (simp add: synchronise_def deselectAll_def getConnections_def Let_def)

lemma synchronise_viewI:
  assumes "isGraph c \<or> presentationMode c" and "ptr p = Some cnv"
  shows "synchronise srt up p c
         = Inr (c\<lparr>selectedComponents := [],
                  boxes := srt (\<lambda>b. find_pos (getObjects p False) (pointer b))
                    (addOrUpdateBoxes up (getObjects p False)
                       (clearDeletedBoxes (getObjects p False) (boxes c))),
                  connections := connections c\<rparr>, [])"
  using assms
  by (auto simp: synchronise_def deselectAll_def getConnections_def Let_def)

text \<open>After synchronise, the second and the third loop find nothing to do.\<close>

lemma synchronise_boxes_settled:
  assumes srt: "std_sort srt" and wfp: "wf_patch p" and uniq: "unique_boxes (boxes c)"
    and sync: "synchronise srt up p c = Inr (c1, msgs1)"
  shows "addOrUpdateBoxes up (getObjects p False)
           (clearDeletedBoxes (getObjects p False) (boxes c1)) = boxes c1"
proof -
  let ?objs = "getObjects p False"
  let ?bs1 = "clearDeletedBoxes ?objs (boxes c)"
  let ?bs2 = "addOrUpdateBoxes up ?objs ?bs1"
  note facts = synchronise_boxes_facts [OF srt sync]
  note dist = wf_patch_objects(1) [OF wfp]
  note nonnull = wf_patch_objects(2) [OF wfp]
  have set1: "set (boxes c1) = set ?bs2"
    using synchronise_InrD(1) [OF sync] std_sort_set [OF srt] by simp
  have u1: "unique_boxes ?bs1"
    using uniq unfolding clearDeletedBoxes_def by (rule unique_boxes_filter)
  have "\<forall>b\<in>set (boxes c1). \<not> (gui b \<and> isObjectDeprecated ?objs (pointer b))"
    using facts(3) by (auto simp: isObjectDeprecated_iff)
  then have A: "clearDeletedBoxes ?objs (boxes c1) = boxes c1"
    by (simp add: clearDeletedBoxes_def filter_id_conv)
  have "\<forall>obj\<in>set ?objs. (\<exists>b\<in>set (boxes c1). pointer b \<noteq> 0 \<and> pointer b = g_addr obj)
          \<and> (\<forall>b\<in>set (boxes c1). pointer b = g_addr obj \<longrightarrow> boxSynced up obj b)"
  proof (intro ballI conjI impI)
    fix obj assume obj: "obj \<in> set ?objs"
    with facts(2) obtain b where "b \<in> set (boxes c1)" "pointer b = g_addr obj" by blast
    moreover from nonnull obj have "g_addr obj \<noteq> 0" by blast
    ultimately show "\<exists>b\<in>set (boxes c1). pointer b \<noteq> 0 \<and> pointer b = g_addr obj"
      by (intro bexI [of _ b]) simp_all
  next
    fix obj b assume obj: "obj \<in> set ?objs" and b: "b \<in> set (boxes c1)"
      and pb: "pointer b = g_addr obj"
    from b set1 have "b \<in> set ?bs2" by simp
    from addOrUpdateBoxes_synced [OF u1 dist nonnull obj this pb]
    show "boxSynced up obj b" .
  qed
  then have "addOrUpdateBoxes up ?objs (boxes c1) = boxes c1"
    by (rule addOrUpdateBoxes_id)
  with A show ?thesis by simp
qed

lemma unique_boxes_ex: "unique_boxes (boxes ex_canvas)"
  by code_simp

lemma unique_boxes_synchronise_seq:
  assumes "std_sort srt" "unique_boxes (boxes c)" "synchronise_seq srt calls c = Inr c'"
  shows "unique_boxes (boxes c')"
  using assms(2,3)
proof (induction calls arbitrary: c)
  case Nil
  then show ?case by simp
next
  case (Cons call calls)
  obtain up p where call: "call = (up, p)" by (cases call)
  from Cons.prems(2) call obtain c1 msgs where
    c1: "synchronise srt up p c = Inr (c1, msgs)" and rest: "synchronise_seq srt calls c1 = Inr c'"
    by (auto split: sum.splits)
  from unique_boxes_synchronise [OF assms(1) Cons.prems(1) c1] have "unique_boxes (boxes c1)" .
  from Cons.IH [OF this rest] show ?case .
qed

lemma unique_boxes_at_most_one:
  "unique_boxes bs \<Longrightarrow> a \<noteq> 0 \<Longrightarrow> length (filter (\<lambda>b. pointer b = a) bs) \<le> 1"
proof (induction bs)
  case Nil
  then show ?case by simp
next
  case (Cons x xs)
  from Cons.prems(1) have u: "unique_boxes xs"
    by (auto simp: unique_boxes_def split: if_splits)
  show ?case
  proof (cases "pointer x = a")
    case True
    with Cons.prems have "a \<notin> pointer ` set xs"
      by (auto simp: unique_boxes_def)
    then have "filter (\<lambda>b. pointer b = a) xs = []"
      by (auto simp: filter_empty_conv)
    with True show ?thesis by simp
  next
    case False
    with Cons.IH [OF u Cons.prems(2)] show ?thesis by simp
  qed
qed

text \<open>A tuple of which the source is not found stops the last loop.\<close>

lemma syncConnections_source_not_found:
  "getIndex_loop (gl_list cnv) inobj 0 = - 1 \<Longrightarrow>
   syncConnections cnv bs ((inno, inobj, outno, outobj) # rest) cons msgs = Inl NullDereference"
  by (simp add: OwnedArray_get_def)

section \<open>Connections of deprecated objects\<close>

text \<open>
  C1. On a canvas that is neither a graph nor in presentation mode, when \<open>synchronise\<close>
  returns, every visual connection has both its boxes on the canvas, and both point
  to objects that the engine lists. The engine's addresses are distinct and not null,
  and no two boxes share an address.
\<close>

theorem synchronise_no_deprecated_connection:
  assumes srt: "std_sort srt" and wfp: "wf_patch p" and heap: "wf_heap (boxes c)"
    and editing: "\<not> (isGraph c \<or> presentationMode c)"
    and sync: "synchronise srt up p c = Inr (c', msgs)"
  shows "\<forall>con\<in>set (connections c'). \<not> endpointDeprecated (getObjects p False) (boxes c') con"
proof -
  let ?objs = "getObjects p False"
  from synchronise_InrD(7) [OF sync editing] obtain cnv cons1 where
    cnv: "ptr p = Some cnv"
    and rm: "removeDeprecatedConnections p ?objs (boxes c) (connections c) = Inr cons1"
    and sc: "syncConnections cnv (boxes c')
               (map (\<lambda>t. (tr_inno t, tr_ob t, tr_outno t, tr_ob2 t)) (gl_lines cnv)) cons1 []
             = Inr (connections c', msgs)"
    by blast
  have objs: "?objs = getObjects_loop False (gl_list cnv)"
    using cnv by (simp add: getObjects_def)
  note facts = synchronise_boxes_facts [OF srt sync]
  note dist = wf_patch_objects(1) [OF wfp]
  have heap': "wf_heap (boxes c')"
    using srt heap sync by (rule wf_heap_synchronise)
  show ?thesis
  proof (rule syncConnections_invariant [OF sc])
    show "\<forall>con\<in>set cons1. \<not> endpointDeprecated ?objs (boxes c') con"
    proof
      fix con assume "con \<in> set cons1"
      with removeDeprecatedConnections_Inr [OF rm]
      have "connectionDeprecated p ?objs (boxes c) con = Inr False" by simp
      then obtain ib ob where
        ib: "deref_box (boxes c) (inbox con) = Some ib" "pointer ib \<in> g_addr ` set ?objs"
        and ob: "deref_box (boxes c) (outbox con) = Some ob" "pointer ob \<in> g_addr ` set ?objs"
        unfolding connectionDeprecated_False_iff by blast
      from synchronise_deref_live [OF srt heap sync ib] synchronise_deref_live [OF srt heap sync ob]
        ib(2) ob(2)
      show "\<not> endpointDeprecated ?objs (boxes c') con"
        by (auto simp: endpointDeprecated_def isObjectDeprecated_iff)
    qed
  next
    fix inno inobj outno outobj src sink con
    assume src: "OwnedArray_get (boxes c') (getIndex_loop (gl_list cnv) inobj 0) = Some src"
      and sink: "OwnedArray_get (boxes c') (getIndex_loop (gl_list cnv) outobj 0) = Some sink"
      and con: "new_Connection (edge_at src (int (numInputs src) + outno)) outno
                  (edge_at sink inno) inno = Inr con"
    from resolved_box_live [OF facts(1,2) dist objs src]
    have s: "src \<in> set (boxes c')" "pointer src \<in> g_addr ` set ?objs" by simp_all
    from resolved_box_live [OF facts(1,2) dist objs sink]
    have k: "sink \<in> set (boxes c')" "pointer sink \<in> g_addr ` set ?objs" by simp_all
    from new_Connection_Inr [OF con] have "inbox con = box_id sink" "outbox con = box_id src"
      by simp_all
    with deref_box_wf [OF heap' s(1)] deref_box_wf [OF heap' k(1)] s(2) k(2)
    show "\<not> endpointDeprecated ?objs (boxes c') con"
      by (simp add: endpointDeprecated_def isObjectDeprecated_iff)
  qed
qed

theorem synchronise_no_deprecated_connection_witness:
  "wf_patch ex_patch \<and> wf_heap (boxes ex_canvas)
   \<and> map (endpointDeprecated (getObjects ex_patch False) (boxes ex_canvas)) (connections ex_canvas)
       = [True]
   \<and> synchronise sort_key True ex_patch ex_canvas = Inr (ex_synced, [])
   \<and> map (endpointDeprecated (getObjects ex_patch False) (boxes ex_synced)) (connections ex_synced)
       = [False]"
proof -
  have e: "\<not> (isGraph ex_canvas \<or> presentationMode ex_canvas)" by (simp add: ex_canvas_def)
  have before: "map (endpointDeprecated (getObjects ex_patch False) (boxes ex_canvas))
      (connections ex_canvas) = [True]" by code_simp
  have len: "length (connections ex_synced) = 1" by (simp add: ex_synced_def)
  from synchronise_no_deprecated_connection
    [OF std_sort_sort_key wf_patch_ex wf_heap_ex e synchronise_ex]
  have "\<forall>con\<in>set (connections ex_synced).
      \<not> endpointDeprecated (getObjects ex_patch False) (boxes ex_synced) con" .
  with len have "map (endpointDeprecated (getObjects ex_patch False) (boxes ex_synced))
      (connections ex_synced) = [False]"
    by (cases "connections ex_synced") auto
  with wf_patch_ex wf_heap_ex before synchronise_ex show ?thesis by simp
qed

section \<open>The order of the boxes\<close>

text \<open>
  C2, as stated, fails. On \<open>ex_canvas\<close> the box without gui of the unlisted object 9
  stays, so the boxes are not the engine's list. And a sort that keeps the promise of
  \<open>std::sort\<close> may turn round two boxes with equal keys: the boxes at addresses 1 and 2
  of \<open>stale_canvas\<close> come out as 2 and 1.
\<close>

theorem synchronise_boxes_not_the_canonical_list:
  "synchronise sort_key True ex_patch ex_canvas = Inr (ex_synced, [])
   \<and> map g_addr (getObjects ex_patch False) = [2, 3]
   \<and> map pointer (boxes ex_synced) = [2, 3, 9]
   \<and> map pointer (boxes ex_synced) \<noteq> map g_addr (getObjects ex_patch False)
   \<and> std_sort sort_reversed
   \<and> map box_id (boxes stale_canvas) = [1, 2]
   \<and> synchronise sort_reversed True ex_patch stale_canvas = Inr (stale_synced, [])
   \<and> map box_id (boxes stale_synced) = [3, 4, 2, 1]"
proof -
  have objs: "map g_addr (getObjects ex_patch False) = [2, 3]" by code_simp
  have ptrs: "map pointer (boxes ex_synced) = [2, 3, 9]" by (simp add: ex_synced_def)
  have "map pointer (boxes ex_synced) \<noteq> map g_addr (getObjects ex_patch False)"
    by (simp only: objs ptrs) simp
  moreover note objs ptrs
  moreover have "map box_id (boxes stale_canvas) = [1, 2]" by (simp add: stale_canvas_def)
  moreover have "synchronise sort_reversed True ex_patch stale_canvas = Inr (stale_synced, [])"
    by code_simp
  moreover have "map box_id (boxes stale_synced) = [3, 4, 2, 1]" by (simp add: stale_synced_def)
  ultimately show ?thesis
    using synchronise_ex std_sort_sort_reversed by simp
qed

text \<open>
  C2, amended. With distinct non-null engine addresses and at most one box for an
  object: when \<open>synchronise\<close> returns, the boxes are ordered by the position of their
  object in \<open>getObjects()\<close>, a box whose object is not listed counting as the position
  after the last. The first boxes are the boxes of the listed objects, one for each,
  in the engine's order. Every box after them is a box without gui of the old canvas
  whose object is not listed; if the old canvas has no such box, the pointers of the
  boxes are exactly the engine's list. Nothing is said on the order of boxes with
  equal positions: the sort is \<open>std::sort\<close>.
\<close>

theorem synchronise_boxes_canonical_order:
  assumes srt: "std_sort srt" and wfp: "wf_patch p" and uniq: "unique_boxes (boxes c)"
    and sync: "synchronise srt up p c = Inr (c', msgs)"
  shows "sorted (map (\<lambda>b. find_pos (getObjects p False) (pointer b)) (boxes c'))
       \<and> map pointer (take (length (getObjects p False)) (boxes c')) = map g_addr (getObjects p False)
       \<and> (\<forall>b\<in>set (drop (length (getObjects p False)) (boxes c')).
            isObjectDeprecated (getObjects p False) (pointer b) \<and> \<not> gui b \<and> b \<in> set (boxes c))
       \<and> ((\<forall>b\<in>set (boxes c). \<not> gui b \<longrightarrow> \<not> isObjectDeprecated (getObjects p False) (pointer b))
            \<longrightarrow> map pointer (boxes c') = map g_addr (getObjects p False))"
proof -
  let ?objs = "getObjects p False"
  let ?N = "length ?objs"
  note facts = synchronise_boxes_facts [OF srt sync]
  note dist = wf_patch_objects(1) [OF wfp]
  note nonnull = wf_patch_objects(2) [OF wfp]
  have uniq': "unique_boxes (boxes c')"
    using srt uniq sync by (rule unique_boxes_synchronise)
  note al = sorted_unique_boxes_aligned [OF facts(1,2) dist nonnull uniq']
  have rest: "\<forall>b\<in>set (drop ?N (boxes c')).
      isObjectDeprecated ?objs (pointer b) \<and> \<not> gui b \<and> b \<in> set (boxes c)"
  proof
    fix b assume b: "b \<in> set (drop ?N (boxes c'))"
    then have "b \<in> set (boxes c')" by (rule in_set_dropD)
    moreover from b al(2) have "pointer b \<notin> g_addr ` set ?objs" by blast
    ultimately show "isObjectDeprecated ?objs (pointer b) \<and> \<not> gui b \<and> b \<in> set (boxes c)"
      using facts(3) by (simp add: isObjectDeprecated_iff)
  qed
  have exact: "map pointer (boxes c') = map g_addr ?objs"
    if none: "\<forall>b\<in>set (boxes c). \<not> gui b \<longrightarrow> \<not> isObjectDeprecated ?objs (pointer b)"
  proof -
    have "drop ?N (boxes c') = []"
    proof (cases "drop ?N (boxes c')")
      case Nil
      then show ?thesis .
    next
      case (Cons b bs)
      then have "b \<in> set (drop ?N (boxes c'))" by simp
      with rest have "isObjectDeprecated ?objs (pointer b)" "\<not> gui b" "b \<in> set (boxes c)"
        by blast+
      with none show ?thesis by blast
    qed
    then have "take ?N (boxes c') = boxes c'"
      by (metis append_Nil2 append_take_drop_id)
    with al(1) show ?thesis by simp
  qed
  show ?thesis
  proof (intro conjI impI)
    show "sorted (map (\<lambda>b. find_pos ?objs (pointer b)) (boxes c'))" by (rule facts(1))
    show "map pointer (take ?N (boxes c')) = map g_addr ?objs" by (rule al(1))
    show "\<forall>b\<in>set (drop ?N (boxes c')).
      isObjectDeprecated ?objs (pointer b) \<and> \<not> gui b \<and> b \<in> set (boxes c)" by (rule rest)
    assume "\<forall>b\<in>set (boxes c). \<not> gui b \<longrightarrow> \<not> isObjectDeprecated ?objs (pointer b)"
    then show "map pointer (boxes c') = map g_addr ?objs" by (rule exact)
  qed
qed

theorem synchronise_boxes_canonical_order_witness:
  "wf_patch ex_patch \<and> unique_boxes (boxes ex_canvas)
   \<and> synchronise sort_key True ex_patch ex_canvas = Inr (ex_synced, [])
   \<and> map g_addr (getObjects ex_patch False) = [2, 3]
   \<and> map pointer (take 2 (boxes ex_synced)) = [2, 3]
   \<and> map pointer (drop 2 (boxes ex_synced)) = [9]"
proof -
  have objs: "map g_addr (getObjects ex_patch False) = [2, 3]" by code_simp
  then have len: "length (getObjects ex_patch False) = 2"
    by (metis length_map length_Cons list.size(3) numeral_2_eq_2)
  from synchronise_boxes_canonical_order
    [OF std_sort_sort_key wf_patch_ex unique_boxes_ex synchronise_ex]
  have "map pointer (take 2 (boxes ex_synced)) = [2, 3]"
    by (simp only: len objs)
  moreover have "map pointer (drop 2 (boxes ex_synced)) = [9]" by (simp add: ex_synced_def)
  ultimately show ?thesis
    using wf_patch_ex unique_boxes_ex synchronise_ex objs by simp
qed

section \<open>A second call of synchronise\<close>

text \<open>
  C3. With distinct non-null engine addresses, distinct box addresses and at most one
  box for an object: when \<open>synchronise\<close> has returned, a second call on the same
  engine state returns too, leaves the connections as they are and the boxes the same
  (as a multiset: no box and no connection is added or removed); the boxes of the
  listed objects keep their places. Only boxes of unlisted objects, which the sort
  treats as equal, may change places among themselves.
\<close>

theorem synchronise_idempotent:
  assumes srt: "std_sort srt" and wfp: "wf_patch p" and heap: "wf_heap (boxes c)"
    and uniq: "unique_boxes (boxes c)"
    and sync: "synchronise srt up p c = Inr (c1, msgs1)"
  shows "\<exists>c2 msgs2. synchronise srt up p c1 = Inr (c2, msgs2)
           \<and> connections c2 = connections c1
           \<and> mset (boxes c2) = mset (boxes c1)
           \<and> take (length (getObjects p False)) (boxes c2)
               = take (length (getObjects p False)) (boxes c1)
           \<and> selectedComponents c2 = selectedComponents c1"
proof -
  let ?objs = "getObjects p False"
  let ?k = "\<lambda>b. find_pos ?objs (pointer b)"
  let ?bs' = "srt ?k (boxes c1)"
  note facts = synchronise_boxes_facts [OF srt sync]
  note dist = wf_patch_objects(1) [OF wfp]
  note nonnull = wf_patch_objects(2) [OF wfp]
  have uniq1: "unique_boxes (boxes c1)"
    using srt uniq sync by (rule unique_boxes_synchronise)
  have settled: "addOrUpdateBoxes up ?objs (clearDeletedBoxes ?objs (boxes c1)) = boxes c1"
    using srt wfp uniq sync by (rule synchronise_boxes_settled)
  have perm: "mset ?bs' = mset (boxes c1)"
    using srt by (rule std_sort_mset)
  have len: "length ?bs' = length (boxes c1)"
    using srt by (rule std_sort_length)
  have sorted': "sorted (map ?k ?bs')"
    using srt by (rule std_sort_sorted)
  have tk: "take (length ?objs) ?bs' = take (length ?objs) (boxes c1)"
    using facts(1) sorted' perm facts(2) dist nonnull uniq1
    by (rule sorted_unique_take_eq)
  have sel: "selectedComponents c1 = []"
    using sync by (rule synchronise_InrD(4))
  from synchronise_InrD(5) [OF sync] obtain cnv where cnv: "ptr p = Some cnv" by blast
  have objs: "?objs = getObjects_loop False (gl_list cnv)"
    using cnv by (simp add: getObjects_def)
  show ?thesis
  proof (cases "isGraph c \<or> presentationMode c")
    case True
    then have "isGraph c1 \<or> presentationMode c1"
      using synchronise_InrD(2,3) [OF sync] by simp
    from synchronise_viewI [OF this cnv, of srt up]
    have "synchronise srt up p c1
          = Inr (c1\<lparr>selectedComponents := [], boxes := ?bs', connections := connections c1\<rparr>, [])"
      by (simp only: settled)
    with perm tk sel show ?thesis by simp
  next
    case False
    then have editing1: "\<not> (isGraph c1 \<or> presentationMode c1)"
      using synchronise_InrD(2,3) [OF sync] by simp
    from synchronise_InrD(7) [OF sync False] cnv obtain cons1 where
      sc: "syncConnections cnv (boxes c1)
             (map (\<lambda>t. (tr_inno t, tr_ob t, tr_outno t, tr_ob2 t)) (gl_lines cnv)) cons1 []
           = Inr (connections c1, msgs1)"
      by auto
    have "\<forall>con\<in>set (connections c1). connectionDeprecated p ?objs (boxes c1) con = Inr False"
      using srt wfp heap uniq False sync by (rule synchronise_connections_current)
    then have rm: "removeDeprecatedConnections p ?objs (boxes c1) (connections c1)
                   = Inr (connections c1)"
      by (rule removeDeprecatedConnections_id)
    from syncConnections_handles [OF sc]
    have "\<forall>t\<in>set (map (\<lambda>t. (tr_inno t, tr_ob t, tr_outno t, tr_ob2 t)) (gl_lines cnv)).
            tupleHandled cnv (boxes c1) (connections c1) t" by simp
    moreover have "\<And>t. tupleHandled cnv ?bs' (connections c1) t
                     = tupleHandled cnv (boxes c1) (connections c1) t"
      using len tk unfolding objs by (rule tupleHandled_same)
    ultimately
    have "\<forall>t\<in>set (map (\<lambda>t. (tr_inno t, tr_ob t, tr_outno t, tr_ob2 t)) (gl_lines cnv)).
            tupleHandled cnv ?bs' (connections c1) t" by simp
    from syncConnections_handled_id [OF this, of "[]"] obtain msgs2 where
      sc2: "syncConnections cnv ?bs'
              (map (\<lambda>t. (tr_inno t, tr_ob t, tr_outno t, tr_ob2 t)) (gl_lines cnv))
              (connections c1) [] = Inr (connections c1, msgs2)"
      by blast
    have "synchronise srt up p c1
          = Inr (c1\<lparr>selectedComponents := [], boxes := ?bs', connections := connections c1\<rparr>, msgs2)"
      using synchronise_editingI [OF editing1 cnv rm, of srt up "connections c1" msgs2] sc2
      by (simp only: settled)
    with perm tk sel show ?thesis by simp
  qed
qed

theorem synchronise_idempotent_witness:
  "wf_patch ex_patch \<and> wf_heap (boxes ex_canvas) \<and> unique_boxes (boxes ex_canvas)
   \<and> synchronise sort_key True ex_patch ex_canvas = Inr (ex_synced, [])
   \<and> synchronise sort_key True ex_patch ex_synced = Inr (ex_synced, [])"
proof -
  from synchronise_idempotent
    [OF std_sort_sort_key wf_patch_ex wf_heap_ex unique_boxes_ex synchronise_ex]
  obtain c2 msgs2 where "synchronise sort_key True ex_patch ex_synced = Inr (c2, msgs2)"
    by blast
  moreover have "synchronise sort_key True ex_patch ex_synced = Inr (ex_synced, [])"
    by code_simp
  ultimately show ?thesis
    using wf_patch_ex wf_heap_ex unique_boxes_ex synchronise_ex by simp
qed

section \<open>The selection\<close>

text \<open>
  C4, as stated, fails: box 3 is selected, its object (address 3) is listed by the
  engine before and after, the box is still on the canvas after \<open>synchronise\<close>, and
  the selection is empty.
\<close>

theorem synchronise_clears_live_selection:
  "selectedComponents ex_canvas = [3]
   \<and> map_option pointer (deref_box (boxes ex_canvas) 3) = Some 3
   \<and> \<not> isObjectDeprecated (getObjects ex_patch False) 3
   \<and> synchronise sort_key True ex_patch ex_canvas = Inr (ex_synced, [])
   \<and> map_option pointer (deref_box (boxes ex_synced) 3) = Some 3
   \<and> selectedComponents ex_synced = []"
  by code_simp

text \<open>
  C4, amended. \<open>synchronise\<close> begins with \<open>deselectAll\<close>: when it returns, the selection
  is empty, whatever was selected and whether or not the selected elements are still
  live.
\<close>

theorem synchronise_empties_selection:
  assumes "synchronise srt updatePosition p c = Inr (c', msgs)"
  shows "selectedComponents c' = []"
  using assms by (rule synchronise_selection)

theorem synchronise_empties_selection_witness:
  "synchronise sort_key True ex_patch ex_canvas = Inr (ex_synced, [])
   \<and> selectedComponents ex_canvas = [3] \<and> selectedComponents ex_synced = []"
  using synchronise_empties_selection [OF synchronise_ex] synchronise_ex
  by (simp add: ex_canvas_def)

section \<open>createConnection\<close>

text \<open>
  C5. \<open>createConnection\<close> returns true exactly when \<open>src\<close>, \<open>sink\<close> and the patch
  pointer are not null and the engine's check of connectability succeeds; then the
  patch is the old one with the connection made by \<open>libpd_createconnection\<close>, and in
  every other case the patch is unchanged.
\<close>

theorem createConnection_validates_first:
  assumes "createConnection libpd_canconnect src nout sink nin p = (r, p')"
  shows "(r \<longleftrightarrow> src \<noteq> 0 \<and> sink \<noteq> 0
            \<and> (\<exists>cnv. ptr p = Some cnv \<and> libpd_canconnect cnv src nout sink nin))
       \<and> (\<not> r \<longrightarrow> p' = p)
       \<and> (r \<longrightarrow> (\<exists>cnv. ptr p = Some cnv
              \<and> p' = p\<lparr>ptr := Some (libpd_createconnection cnv src nout sink nin)\<rparr>))"
  using assms
  by (auto simp: createConnection_def Let_def split: if_splits option.splits)

theorem createConnection_validates_first_witness:
  "createConnection (\<lambda>cnv src nout sink nin. nin < 1) 2 0 3 1 ex_patch = (False, ex_patch)
   \<and> createConnection (\<lambda>cnv src nout sink nin. nin < 1) 2 0 3 0 ex_patch
       = (True, \<lparr>ptr = Some (libpd_createconnection ex_cnv 2 0 3 0)\<rparr>)
   \<and> createConnection (\<lambda>cnv src nout sink nin. nin < 1) 0 0 3 0 ex_patch = (False, ex_patch)"
  using createConnection_validates_first
    [of "\<lambda>cnv src nout sink nin. nin < 1" 2 0 3 1 ex_patch False ex_patch]
  by (simp add: createConnection_def ex_patch_def)

section \<open>Tuples that do not resolve\<close>

text \<open>
  C6. The info parent (address 1) is the source of a line. \<open>getIndex\<close> gives \<open>-1\<close> for
  it, \<open>boxes[-1]\<close> is the null pointer, and \<open>synchronise\<close> reads its \<open>edges\<close> before
  the test of the ranges: nothing is logged and nothing is skipped.
\<close>

theorem synchronise_unresolved_source_fails:
  "getIndex info_patch 1 = Inr (- 1)
   \<and> OwnedArray_get (boxes empty_canvas) (- 1) = None
   \<and> synchronise sort_key True info_patch empty_canvas = Inl NullDereference"
  by code_simp

section \<open>One box for an object\<close>

text \<open>
  C7. If no two boxes of the canvas point to the same engine object, the same holds
  after any run of calls of \<open>synchronise\<close>, whatever the engine lists at each call:
  for every object address that is not null, at most one box has it. The canvas
  starts without boxes, so it holds from the start. A box is added for an object only
  when no box points to it (\<open>addOrUpdateBox_new_only_if_absent\<close>).
\<close>

theorem synchronise_seq_unique_boxes:
  assumes "std_sort srt" "unique_boxes (boxes c)" "synchronise_seq srt calls c = Inr c'"
  shows "unique_boxes (boxes c')
       \<and> (\<forall>a. a \<noteq> 0 \<longrightarrow> length (filter (\<lambda>b. pointer b = a) (boxes c')) \<le> 1)"
proof -
  have "unique_boxes (boxes c')"
    using assms(1) assms(2) assms(3) by (rule unique_boxes_synchronise_seq)
  then show ?thesis
    using unique_boxes_at_most_one by blast
qed

theorem synchronise_seq_unique_boxes_witness:
  "unique_boxes (boxes ex_canvas)
   \<and> synchronise_seq sort_key [(True, ex_patch), (False, ex_patch2)] ex_canvas = Inr ex_synced2
   \<and> unique_boxes (boxes ex_synced2)
   \<and> map pointer (boxes ex_synced2) = [3, 5, 9]"
proof -
  have u: "unique_boxes (boxes ex_canvas)" by code_simp
  have s: "synchronise_seq sort_key [(True, ex_patch), (False, ex_patch2)] ex_canvas = Inr ex_synced2"
    by code_simp
  have "map pointer (boxes ex_synced2) = [3, 5, 9]" by (simp add: ex_synced2_def)
  with u s synchronise_seq_unique_boxes [OF std_sort_sort_key u s] show ?thesis by blast
qed

section \<open>getIndex and getObjects\<close>

text \<open>
  C8. With a patch pointer that is not null: for an identity among \<open>getObjects()\<close>,
  \<open>getIndex\<close> returns its position in that sequence (the first one with this
  identity; the identities of a linked list are distinct), and for any other identity,
  the info parent included, it returns \<open>-1\<close>.
\<close>

theorem getIndex_is_position_in_getObjects:
  assumes "ptr p = Some cnv"
  shows "(obj \<in> g_addr ` set (getObjects p False) \<longrightarrow>
           (\<exists>k<length (getObjects p False).
              getIndex p obj = Inr (int k) \<and> g_addr (getObjects p False ! k) = obj
              \<and> (\<forall>j<k. g_addr (getObjects p False ! j) \<noteq> obj)))
       \<and> (obj \<notin> g_addr ` set (getObjects p False) \<longrightarrow> getIndex p obj = Inr (- 1))"
proof (intro conjI impI)
  assume "obj \<in> g_addr ` set (getObjects p False)"
  then have "obj \<in> g_addr ` set (getObjects_loop False (gl_list cnv))"
    using assms by (simp add: getObjects_def)
  from getIndex_loop_present [OF this, of 0]
  show "\<exists>k<length (getObjects p False).
          getIndex p obj = Inr (int k) \<and> g_addr (getObjects p False ! k) = obj
          \<and> (\<forall>j<k. g_addr (getObjects p False ! j) \<noteq> obj)"
    using assms by (auto simp: getObjects_def getIndex_def)
next
  assume "obj \<notin> g_addr ` set (getObjects p False)"
  then have "obj \<notin> g_addr ` set (getObjects_loop False (gl_list cnv))"
    using assms by (simp add: getObjects_def)
  from getIndex_loop_absent [OF this, of 0]
  show "getIndex p obj = Inr (- 1)"
    using assms by (simp add: getIndex_def)
qed

theorem getIndex_is_position_in_getObjects_witness:
  "ptr ex_patch = Some ex_cnv
   \<and> map g_addr (getObjects ex_patch False) = [2, 3]
   \<and> getIndex ex_patch 3 = Inr 1
   \<and> getIndex ex_patch 1 = Inr (- 1)
   \<and> getIndex ex_patch 7 = Inr (- 1)"
  using getIndex_is_position_in_getObjects [of ex_patch ex_cnv 3]
    getIndex_is_position_in_getObjects [of ex_patch ex_cnv 1]
  by (simp add: ex_patch_def ex_cnv_def getObjects_def getIndex_def)

section \<open>keyPressed\<close>

text \<open>
  C9, as stated, fails: for the backspace key the handler returns false and makes no
  call of \<open>Patch::keyPress\<close>; the key is not passed on to the engine.
\<close>

theorem keyPressed_backspace_not_forwarded:
  "keyPressed True ex_canvas backspaceKey False = (False, [])
   \<and> keyPress backspaceKey False \<notin> set (snd (keyPressed True ex_canvas backspaceKey False))"
  by (simp add: keyPressed_def ex_canvas_def)

text \<open>
  C9, amended. On the current canvas, when it is not a graph: each arrow key makes
  exactly one call of \<open>moveObjects\<close>, with all selected boxes and a step of 10 in the
  direction of the key, and is consumed; backspace, delete, escape, return, tab,
  page-up, page-down and home are not consumed and nothing is called on the patch for
  them; any other key is not consumed and is passed to \<open>Patch::keyPress\<close>. On another
  canvas or a graph no key does anything.
\<close>

theorem keyPressed_arrows_move_ignored_keys_dropped:
  "(isCurrent \<and> \<not> isGraph c \<longrightarrow>
      keyPressed isCurrent c leftKey shift
        = (True, [moveObjects (map pointer (getSelectionOfTypeBox c)) (- 10) 0])
    \<and> keyPressed isCurrent c rightKey shift
        = (True, [moveObjects (map pointer (getSelectionOfTypeBox c)) 10 0])
    \<and> keyPressed isCurrent c upKey shift
        = (True, [moveObjects (map pointer (getSelectionOfTypeBox c)) 0 (- 10)])
    \<and> keyPressed isCurrent c downKey shift
        = (True, [moveObjects (map pointer (getSelectionOfTypeBox c)) 0 10])
    \<and> (k \<in> {backspaceKey, deleteKey, escapeKey, returnKey, tabKey, pageUpKey, pageDownKey, homeKey}
         \<longrightarrow> keyPressed isCurrent c k shift = (False, []))
    \<and> keyPressed isCurrent c (otherKey n) shift = (False, [keyPress (otherKey n) shift]))
   \<and> (\<not> isCurrent \<or> isGraph c \<longrightarrow> keyPressed isCurrent c k shift = (False, []))"
  by (auto simp: keyPressed_def moveSelection_def)

theorem keyPressed_arrows_move_ignored_keys_dropped_witness:
  "\<not> isGraph ex_canvas
   \<and> keyPressed True ex_canvas leftKey False = (True, [moveObjects [3] (- 10) 0])
   \<and> keyPressed True ex_canvas deleteKey False = (False, [])
   \<and> keyPressed True ex_canvas (otherKey 65) True = (False, [keyPress (otherKey 65) True])"
  using keyPressed_arrows_move_ignored_keys_dropped [of True ex_canvas False deleteKey 65]
    keyPressed_arrows_move_ignored_keys_dropped [of True ex_canvas True deleteKey 65]
  by (simp add: ex_canvas_def getSelectionOfTypeBox_def deref_box_def List.map_filter_simps)

section \<open>Boxes without gui\<close>

text \<open>
  C10. The second loop of \<open>synchronise\<close> keeps every box whose \<open>gui\<close> is null. When
  \<open>synchronise\<close> returns, such a box is still among the boxes, with its address, its
  object pointer and no gui; when its object is not listed by the engine, the box is
  there unchanged.
\<close>

theorem synchronise_keeps_boxes_without_gui:
  assumes "std_sort srt" "b \<in> set (boxes c)" "\<not> gui b"
  shows "b \<in> set (clearDeletedBoxes (getObjects p False) (boxes c))
       \<and> (synchronise srt up p c = Inr (c', msgs) \<longrightarrow>
            (\<exists>b'\<in>set (boxes c'). box_id b' = box_id b \<and> pointer b' = pointer b \<and> \<not> gui b'
               \<and> (isObjectDeprecated (getObjects p False) (pointer b) \<longrightarrow> b' = b)))"
proof (intro conjI impI)
  let ?objs = "getObjects p False"
  show kept: "b \<in> set (clearDeletedBoxes ?objs (boxes c))"
    using assms(2,3) by (simp add: clearDeletedBoxes_def)
  assume sync: "synchronise srt up p c = Inr (c', msgs)"
  from addOrUpdateBoxes_keeps [OF kept, of up ?objs] obtain b' where b':
    "b' \<in> set (addOrUpdateBoxes up ?objs (clearDeletedBoxes ?objs (boxes c)))"
    "box_id b' = box_id b" "pointer b' = pointer b" "gui b' = gui b"
    "pointer b \<notin> g_addr ` set ?objs \<longrightarrow> b' = b"
    by blast
  from b'(1) have "b' \<in> set (boxes c')"
    using synchronise_InrD(1) [OF sync] std_sort_set [OF assms(1)] by simp
  with b' assms(3) show "\<exists>b'\<in>set (boxes c'). box_id b' = box_id b \<and> pointer b' = pointer b
      \<and> \<not> gui b' \<and> (isObjectDeprecated ?objs (pointer b) \<longrightarrow> b' = b)"
    by (auto simp: isObjectDeprecated_iff)
qed

theorem synchronise_keeps_boxes_without_gui_witness:
  "\<lparr>box_id = 1, pointer = 9, gui = False, numInputs = 0, edges_size = 0, bounds = (0, 0)\<rparr>
     \<in> set (boxes ex_canvas)
   \<and> isObjectDeprecated (getObjects ex_patch False) 9
   \<and> synchronise sort_key True ex_patch ex_canvas = Inr (ex_synced, [])
   \<and> \<lparr>box_id = 1, pointer = 9, gui = False, numInputs = 0, edges_size = 0, bounds = (0, 0)\<rparr>
     \<in> set (boxes ex_synced)"
proof -
  let ?b = "\<lparr>box_id = 1, pointer = 9, gui = False, numInputs = 0, edges_size = 0, bounds = (0, 0)\<rparr>"
  have b: "?b \<in> set (boxes ex_canvas)" by (simp add: ex_canvas_def)
  have g: "\<not> gui ?b" by simp
  have d: "isObjectDeprecated (getObjects ex_patch False) 9" by code_simp
  from synchronise_keeps_boxes_without_gui [OF std_sort_sort_key b g, of ex_patch True ex_synced "[]"]
    synchronise_ex d
  have "?b \<in> set (boxes ex_synced)" by auto
  with b d synchronise_ex show ?thesis by simp
qed

end
